theory Spec2Isabelle
  imports Main "HOL-Library.Word" "HOL-Library.AList"
begin

unbundle bit_operations_syntax

chapter \<open>requestr: a byte-level HTTP toolkit\<close>

text \<open>
  A shallow embedding of the pure parts of the toolkit: the request builder, the
  payload encoder, the HTTP/1.x response parser, the pipelined response splitter, the
  HPACK codec and the HTTP/2 framer.

  Conventions of the embedding.
  \<^item> A JavaScript string is a \<^typ>\<open>string\<close>: a list of code units below 256. All string
    functions are exact on that range.
  \<^item> A \<^verbatim>\<open>Buffer\<close> is a list of bytes (\<^typ>\<open>8 word\<close>). The conversions
    \<^verbatim>\<open>Buffer.from(str)\<close> and \<^verbatim>\<open>buf.toString("utf-8")\<close> are modelled
    code unit by code unit, which is what UTF-8 does on ASCII; statements that go
    through a conversion carry an explicit ASCII hypothesis.
  \<^item> A \<^verbatim>\<open>Map\<close> is an association list in insertion order; \<^verbatim>\<open>set\<close> on a
    present key replaces the value in place.
  \<^item> An exception is a value \<open>Inl e\<close> of a sum type.
\<close>

section \<open>JavaScript strings, buffers and maps\<close>

type_synonym byte = "8 word"
type_synonym buffer = "byte list"

definition CR :: char where "CR = CHR 0x0D"
definition LF :: char where "LF = CHR 0x0A"
definition TAB :: char where "TAB = CHR 0x09"
definition NUL :: char where "NUL = CHR 0x00"
definition CRLF :: string where "CRLF = [CR, LF]"

definition charCodeAt0 :: "char \<Rightarrow> nat" where
  "charCodeAt0 c = of_char c"

text \<open>The UTF-8 bytes of one code unit below 256.\<close>

definition utf8Bytes :: "char \<Rightarrow> nat list" where
  "utf8Bytes c = (let n = charCodeAt0 c in
     if n < 128 then [n] else [192 + n div 64, 128 + n mod 64])"

text \<open>\<^verbatim>\<open>Buffer.from(str)\<close>, and \<^verbatim>\<open>buf.toString()\<close> (exact on ASCII bytes).\<close>

definition Buffer_from :: "string \<Rightarrow> buffer" where
  "Buffer_from s = map of_nat (concat (map utf8Bytes s))"

definition toString :: "buffer \<Rightarrow> string" where
  "toString b = map (\<lambda>x. char_of (unat x)) b"

definition ascii :: "string \<Rightarrow> bool" where
  "ascii s = (\<forall>c \<in> set s. (of_char c :: nat) < 128)"


text \<open>White space of \<^verbatim>\<open>String.prototype.trim\<close> and of the regex class \<^verbatim>\<open>\s\<close>.\<close>

definition isWhiteSpace :: "char \<Rightarrow> bool" where
  "isWhiteSpace c =
     (c \<in> set [CHR 0x09, CHR 0x0A, CHR 0x0B, CHR 0x0C, CHR 0x0D, CHR 0x20, CHR 0xA0])"


definition trim :: "string \<Rightarrow> string" where
  "trim s = rev (dropWhile isWhiteSpace (rev (dropWhile isWhiteSpace s)))"

definition lowerChar :: "char \<Rightarrow> char" where
  "lowerChar c = (let n = (of_char c :: nat) in
     if (65 \<le> n \<and> n \<le> 90) \<or> (192 \<le> n \<and> n \<le> 222 \<and> n \<noteq> 215)
     then char_of (n + 32) else c)"

definition toLowerCase :: "string \<Rightarrow> string" where
  "toLowerCase s = map lowerChar s"

definition startsWith :: "string \<Rightarrow> string \<Rightarrow> bool" where
  "startsWith s p = (take (length p) s = p)"

text \<open>\<^verbatim>\<open>s.indexOf(p, from)\<close>: the first index at or after \<open>from\<close> where \<open>p\<close>
  occurs, \<open>None\<close> for \<^verbatim>\<open>-1\<close>.\<close>

fun indexOfFrom :: "string \<Rightarrow> string \<Rightarrow> nat \<Rightarrow> nat option" where
  "indexOfFrom p [] i = (if p = [] then Some i else None)"
| "indexOfFrom p (c # cs) i =
     (if take (length p) (c # cs) = p then Some i else indexOfFrom p cs (Suc i))"

definition indexOf :: "string \<Rightarrow> string \<Rightarrow> nat option" where
  "indexOf s p = indexOfFrom p s 0"

definition indexOfAt :: "string \<Rightarrow> string \<Rightarrow> nat \<Rightarrow> nat option" where
  "indexOfAt s p from = indexOfFrom p (drop from s) (min from (length s))"

text \<open>\<^verbatim>\<open>s.substring(a, b)\<close> for \<open>a \<le> b\<close>, and \<^verbatim>\<open>s.substring(a)\<close>.\<close>

definition substring :: "string \<Rightarrow> nat \<Rightarrow> nat \<Rightarrow> string" where
  "substring s a b = take (b - a) (drop a s)"

definition substringFrom :: "string \<Rightarrow> nat \<Rightarrow> string" where
  "substringFrom s a = drop a s"

definition repeat :: "string \<Rightarrow> nat \<Rightarrow> string" where
  "repeat s n = concat (replicate n s)"

text \<open>\<^verbatim>\<open>lines.join(sep)\<close>.\<close>

fun join :: "string \<Rightarrow> string list \<Rightarrow> string" where
  "join sep [] = []"
| "join sep [l] = l"
| "join sep (l # ls) = l @ sep @ join sep ls"

text \<open>\<^verbatim>\<open>Map.prototype.set\<close>, \<^verbatim>\<open>get\<close> and \<^verbatim>\<open>has\<close> on an insertion-ordered map.\<close>

definition Map_set :: "('k \<times> 'v) list \<Rightarrow> 'k \<Rightarrow> 'v \<Rightarrow> ('k \<times> 'v) list" where
  "Map_set m k v = AList.update k v m"


text \<open>Property assignment \<^verbatim>\<open>obj[k] = v\<close> on a plain object created by \<^verbatim>\<open>{}\<close>:
  assigning a string to \<^verbatim>\<open>__proto__\<close> creates no property. The enumeration order of
  integer-like keys is not modelled.\<close>

definition Object_set :: "(string \<times> 'v) list \<Rightarrow> string \<Rightarrow> 'v \<Rightarrow> (string \<times> 'v) list" where
  "Object_set m k v = (if k = ''__proto__'' then m else AList.update k v m)"

section \<open>Request builder\<close>

text \<open>One entry of \<^verbatim>\<open>_headers\<close>: \<^verbatim>\<open>{ name, value, raw? }\<close>.\<close>

record header_entry =
  h_name :: string
  h_value :: string
  h_raw :: "string option"

datatype scheme = Http | Https

datatype body = StringBody string | BufferBody buffer

record RequestBuilder =
  b_url :: string
  b_method :: string
  b_path :: string
  b_host :: string
  b_port :: nat
  b_scheme :: scheme
  b_httpVersion :: string
  b_headers :: "header_entry list"
  b_body :: body
  b_lineEnding :: string
  b_requestLineSeparator :: string

definition newRequestBuilder :: RequestBuilder where
  "newRequestBuilder = \<lparr> b_url = '''', b_method = ''GET'', b_path = ''/'', b_host = '''',
     b_port = 80, b_scheme = Http, b_httpVersion = ''1.1'', b_headers = [],
     b_body = StringBody '''', b_lineEnding = CRLF, b_requestLineSeparator = '' '' \<rparr>"

definition host :: "string \<Rightarrow> RequestBuilder \<Rightarrow> RequestBuilder" where
  "host h b = b\<lparr>b_host := h\<rparr>"

text \<open>The setter \<^verbatim>\<open>method(m)\<close>.\<close>

definition set_method :: "string \<Rightarrow> RequestBuilder \<Rightarrow> RequestBuilder" where
  "set_method m b = b\<lparr>b_method := m\<rparr>"

definition path :: "string \<Rightarrow> RequestBuilder \<Rightarrow> RequestBuilder" where
  "path p b = b\<lparr>b_path := p\<rparr>"

definition httpVersion :: "string \<Rightarrow> RequestBuilder \<Rightarrow> RequestBuilder" where
  "httpVersion v b = b\<lparr>b_httpVersion := v\<rparr>"

definition header :: "string \<Rightarrow> string \<Rightarrow> RequestBuilder \<Rightarrow> RequestBuilder" where
  "header n v b = b\<lparr>b_headers := b_headers b @ [\<lparr>h_name = n, h_value = v, h_raw = None\<rparr>]\<rparr>"

definition rawHeader :: "string \<Rightarrow> RequestBuilder \<Rightarrow> RequestBuilder" where
  "rawHeader rawLine b =
     b\<lparr>b_headers := b_headers b @ [\<lparr>h_name = '''', h_value = '''', h_raw = Some rawLine\<rparr>]\<rparr>"

datatype MalformationType =
    SpaceBeforeColon | SpaceAfterColon | TabSeparator | NoSpaceAfterColon | DoubleSpace
  | CrlfInjection | LfOnly | CrOnly | NullByte | OversizedHeader | EmptyHeaderName
  | EmptyHeaderValue

fun malformedRaw :: "string \<Rightarrow> string \<Rightarrow> MalformationType \<Rightarrow> string" where
  "malformedRaw n v SpaceBeforeColon = n @ '' : '' @ v"
| "malformedRaw n v SpaceAfterColon = n @ '':  '' @ v"
| "malformedRaw n v TabSeparator = n @ '':'' @ [TAB] @ v"
| "malformedRaw n v NoSpaceAfterColon = n @ '':'' @ v"
| "malformedRaw n v DoubleSpace = n @ '':  '' @ v"
| "malformedRaw n v CrlfInjection = n @ '': '' @ v @ CRLF @ ''Injected: header''"
| "malformedRaw n v NullByte = n @ '': '' @ v @ [NUL] @ ''injected''"
| "malformedRaw n v OversizedHeader = n @ '': '' @ repeat ''A'' 8192 @ v"
| "malformedRaw n v EmptyHeaderName = '': '' @ v"
| "malformedRaw n v EmptyHeaderValue = n @ '': ''"
| "malformedRaw n v _ = n @ '': '' @ v"

definition malformedHeader ::
  "string \<Rightarrow> string \<Rightarrow> MalformationType \<Rightarrow> RequestBuilder \<Rightarrow> RequestBuilder" where
  "malformedHeader n v t b =
     b\<lparr>b_headers := b_headers b @
        [\<lparr>h_name = '''', h_value = '''', h_raw = Some (malformedRaw n v t)\<rparr>]\<rparr>"

definition body :: "body \<Rightarrow> RequestBuilder \<Rightarrow> RequestBuilder" where
  "body bd b = b\<lparr>b_body := bd\<rparr>"

definition lineEnding :: "string \<Rightarrow> RequestBuilder \<Rightarrow> RequestBuilder" where
  "lineEnding e b = b\<lparr>b_lineEnding := e\<rparr>"

definition requestLineSeparator :: "string \<Rightarrow> RequestBuilder \<Rightarrow> RequestBuilder" where
  "requestLineSeparator s b = b\<lparr>b_requestLineSeparator := s\<rparr>"

text \<open>The lines that \<^verbatim>\<open>build\<close> and \<^verbatim>\<open>buildBuffer\<close> collect before joining them.\<close>

definition requestLine :: "RequestBuilder \<Rightarrow> string" where
  "requestLine b = b_method b @ b_requestLineSeparator b @ b_path b
     @ b_requestLineSeparator b @ ''HTTP/'' @ b_httpVersion b"

definition headerLine :: "header_entry \<Rightarrow> string" where
  "headerLine h = (case h_raw h of Some r \<Rightarrow> r | None \<Rightarrow> h_name h @ '': '' @ h_value h)"

definition buildLines :: "RequestBuilder \<Rightarrow> string list" where
  "buildLines b = [requestLine b] @ map headerLine (b_headers b) @ ['''']"

text \<open>Truthiness of \<^verbatim>\<open>this._body\<close>: a string is truthy when not empty, a Buffer always.\<close>

fun bodyTruthy :: "body \<Rightarrow> bool" where
  "bodyTruthy (StringBody s) = (s \<noteq> [])"
| "bodyTruthy (BufferBody _) = True"

fun bodyString :: "body \<Rightarrow> string" where
  "bodyString (StringBody s) = s"
| "bodyString (BufferBody bs) = toString bs"

fun bodyBuffer :: "body \<Rightarrow> buffer" where
  "bodyBuffer (StringBody s) = Buffer_from s"
| "bodyBuffer (BufferBody bs) = bs"

definition build :: "RequestBuilder \<Rightarrow> string" where
  "build b = (let request = join (b_lineEnding b) (buildLines b) in
     if bodyTruthy (b_body b) then request @ bodyString (b_body b) else request)"

definition buildBuffer :: "RequestBuilder \<Rightarrow> buffer" where
  "buildBuffer b = (let headerPart = Buffer_from (join (b_lineEnding b) (buildLines b)) in
     if bodyTruthy (b_body b) then headerPart @ bodyBuffer (b_body b) else headerPart)"

text \<open>\<^verbatim>\<open>getHostHeader\<close>: the value of the first entry named \<^verbatim>\<open>host\<close>, cut at the
  first colon (\<^verbatim>\<open>split(":")[0]\<close>).\<close>

definition getHostHeader :: "RequestBuilder \<Rightarrow> string option" where
  "getHostHeader b =
     (case find (\<lambda>h. toLowerCase (h_name h) = ''host'') (b_headers b) of
        Some h \<Rightarrow> Some (takeWhile (\<lambda>c. c \<noteq> CHR '':'') (h_value h))
      | None \<Rightarrow> None)"

text \<open>\<^verbatim>\<open>this._host || this.getHostHeader() || ""\<close>.\<close>

definition authorityOf :: "RequestBuilder \<Rightarrow> string" where
  "authorityOf b = (if b_host b \<noteq> [] then b_host b
     else case getHostHeader b of Some h \<Rightarrow> h | None \<Rightarrow> '''')"

definition schemeString :: "scheme \<Rightarrow> string" where
  "schemeString s = (case s of Http \<Rightarrow> ''http'' | Https \<Rightarrow> ''https'')"

text \<open>A raw line split at its first colon, as both HTTP/2 projections do:
  \<open>None\<close> when there is no colon or it is the first character.\<close>

definition parseRaw :: "string \<Rightarrow> (string \<times> string) option" where
  "parseRaw r = (case indexOf r '':'' of
       None \<Rightarrow> None
     | Some colonIdx \<Rightarrow>
         if colonIdx > 0
         then Some (toLowerCase (trim (substring r 0 colonIdx)),
                    trim (substringFrom r (colonIdx + 1)))
         else None)"

text \<open>The test \<^verbatim>\<open>if (h.raw)\<close>: the raw line is present and not empty.\<close>

definition rawTruthy :: "header_entry \<Rightarrow> bool" where
  "rawTruthy h = (case h_raw h of Some r \<Rightarrow> r \<noteq> [] | None \<Rightarrow> False)"

definition http2HeadersStep ::
  "(string \<times> string) list \<Rightarrow> header_entry \<Rightarrow> (string \<times> string) list" where
  "http2HeadersStep headers h =
     (if rawTruthy h then
        (case parseRaw (the (h_raw h)) of
           Some (n, v) \<Rightarrow>
             if n \<noteq> [] \<and> \<not> startsWith n '':'' then Map_set headers n v else headers
         | None \<Rightarrow> headers)
      else if toLowerCase (h_name h) \<noteq> ''host''
        then Map_set headers (toLowerCase (h_name h)) (h_value h)
      else headers)"

definition buildHttp2Headers :: "RequestBuilder \<Rightarrow> (string \<times> string) list" where
  "buildHttp2Headers b =
     foldl http2HeadersStep
       (Map_set (Map_set (Map_set (Map_set [] '':method'' (b_method b))
          '':path'' (b_path b)) '':scheme'' (schemeString (b_scheme b)))
          '':authority'' (authorityOf b))
       (b_headers b)"

definition http2RequestStep ::
  "(string \<times> string) list \<Rightarrow> header_entry \<Rightarrow> (string \<times> string) list" where
  "http2RequestStep headers h =
     (if rawTruthy h then
        (case parseRaw (the (h_raw h)) of
           Some (n, v) \<Rightarrow>
             if n \<noteq> [] \<and> \<not> startsWith n '':'' \<and> n \<noteq> ''host''
             then Object_set headers n v else headers
         | None \<Rightarrow> headers)
      else if toLowerCase (h_name h) \<noteq> ''host''
        then Object_set headers (toLowerCase (h_name h)) (h_value h)
      else headers)"

record Http2RequestProjection =
  p_method :: string
  p_path :: string
  p_authority :: string
  p_scheme :: scheme
  p_headers :: "(string \<times> string) list"
  p_body :: "body option"

definition buildHttp2Request :: "RequestBuilder \<Rightarrow> Http2RequestProjection" where
  "buildHttp2Request b = \<lparr> p_method = b_method b, p_path = b_path b,
     p_authority = authorityOf b, p_scheme = b_scheme b,
     p_headers = foldl http2RequestStep [] (b_headers b),
     p_body = (if bodyTruthy (b_body b) then Some (b_body b) else None) \<rparr>"

section \<open>Payload encoder\<close>

datatype EncodingType =
  Url | DoubleUrl | Unicode | Hex | Octal | HtmlEntity | Base64 | OverlongUtf8

text \<open>\<^verbatim>\<open>n.toString(radix)\<close> for a code unit: exact below \<open>radix ^ 3\<close>, which covers
  every code unit of the model for the radices 8 and 16 the encoder uses.\<close>

definition digitChar :: "nat \<Rightarrow> char" where
  "digitChar n = ''0123456789abcdef'' ! n"

definition toStringRadix :: "nat \<Rightarrow> nat \<Rightarrow> string" where
  "toStringRadix n r =
     (if n < r then [digitChar n]
      else if n < r * r then [digitChar (n div r), digitChar (n mod r)]
      else [digitChar (n div (r * r)), digitChar (n div r mod r), digitChar (n mod r)])"

definition padStart :: "string \<Rightarrow> nat \<Rightarrow> char \<Rightarrow> string" where
  "padStart s n c = replicate (n - length s) c @ s"

text \<open>\<^verbatim>\<open>toUpperCase\<close> is only applied to hexadecimal digits.\<close>

definition upperChar :: "char \<Rightarrow> char" where
  "upperChar c = (let n = (of_char c :: nat) in
     if 97 \<le> n \<and> n \<le> 122 then char_of (n - 32) else c)"

definition toUpperCase :: "string \<Rightarrow> string" where
  "toUpperCase s = map upperChar s"

text \<open>\<^verbatim>\<open>encodeURIComponent\<close>: letters, digits and \<^verbatim>\<open>-_.!~*'()\<close> are kept, every
  other code unit becomes the percent-escapes of its UTF-8 bytes, in upper-case
  hexadecimal.\<close>

definition uriUnreserved :: "char \<Rightarrow> bool" where
  "uriUnreserved c = (let n = charCodeAt0 c in
     (65 \<le> n \<and> n \<le> 90) \<or> (97 \<le> n \<and> n \<le> 122) \<or> (48 \<le> n \<and> n \<le> 57)
     \<or> c \<in> set ''-_.!~*'' \<or> n = 39 \<or> c \<in> set ''()'')"

definition percentByte :: "nat \<Rightarrow> string" where
  "percentByte n = CHR ''%'' # padStart (toUpperCase (toStringRadix n 16)) 2 (CHR ''0'')"

definition encodeURIComponent :: "string \<Rightarrow> string" where
  "encodeURIComponent s =
     concat (map (\<lambda>c. if uriUnreserved c then [c] else concat (map percentByte (utf8Bytes c))) s)"

text \<open>\<^verbatim>\<open>urlEncode\<close>: the replacement of \<^verbatim>\<open>/[!'()*]/g\<close> acts on single characters.\<close>

definition urlEncode :: "string \<Rightarrow> string" where
  "urlEncode s =
     concat (map (\<lambda>c. if c \<in> set ''!()*'' \<or> charCodeAt0 c = 39
                       then CHR ''%'' # toUpperCase (toStringRadix (charCodeAt0 c) 16)
                       else [c])
       (encodeURIComponent s))"

definition urlEncodeAll :: "string \<Rightarrow> string" where
  "urlEncodeAll s =
     concat (map (\<lambda>c. CHR ''%'' # padStart (toUpperCase (toStringRadix (charCodeAt0 c) 16)) 2 (CHR ''0'')) s)"

definition unicodeEncode :: "string \<Rightarrow> string" where
  "unicodeEncode s =
     concat (map (\<lambda>c. [CHR 0x5C, CHR ''u''] @ padStart (toStringRadix (charCodeAt0 c) 16) 4 (CHR ''0'')) s)"

definition hexEncode :: "string \<Rightarrow> string" where
  "hexEncode s =
     concat (map (\<lambda>c. [CHR 0x5C, CHR ''x''] @ padStart (toStringRadix (charCodeAt0 c) 16) 2 (CHR ''0'')) s)"

definition octalEncode :: "string \<Rightarrow> string" where
  "octalEncode s =
     concat (map (\<lambda>c. CHR 0x5C # padStart (toStringRadix (charCodeAt0 c) 8) 3 (CHR ''0'')) s)"

text \<open>\<^verbatim>\<open>htmlEntityEncode(str)\<close> with its default \<^verbatim>\<open>useHex = true\<close>.\<close>

definition htmlEntityEncode :: "string \<Rightarrow> string" where
  "htmlEntityEncode s = concat (map (\<lambda>c. ''&#x'' @ toStringRadix (charCodeAt0 c) 16 @ '';'') s)"

text \<open>\<^verbatim>\<open>Buffer.from(str).toString("base64")\<close>.\<close>

definition b64chars :: string where
  "b64chars = ''ABCDEFGHIJKLMNOPQRSTUVWXYZabcdefghijklmnopqrstuvwxyz0123456789+/''"

fun base64Bytes :: "nat list \<Rightarrow> string" where
  "base64Bytes [] = []"
| "base64Bytes [a] = [b64chars ! (a div 4), b64chars ! (a mod 4 * 16), CHR ''='', CHR ''='']"
| "base64Bytes [a, b] =
     [b64chars ! (a div 4), b64chars ! (a mod 4 * 16 + b div 16), b64chars ! (b mod 16 * 4),
      CHR ''='']"
| "base64Bytes (a # b # c # rest) =
     [b64chars ! (a div 4), b64chars ! (a mod 4 * 16 + b div 16),
      b64chars ! (b mod 16 * 4 + c div 64), b64chars ! (c mod 64)] @ base64Bytes rest"

definition base64Encode :: "string \<Rightarrow> string" where
  "base64Encode s = base64Bytes (concat (map utf8Bytes s))"

text \<open>\<^verbatim>\<open>overlongUtf8Encode\<close>: the bytes are turned into a string of the same code
  units by \<^verbatim>\<open>toString("binary")\<close>.\<close>

definition overlongUtf8Encode :: "string \<Rightarrow> string" where
  "overlongUtf8Encode s =
     concat (map (\<lambda>c. let code = charCodeAt0 c in
                   if code < 128
                   then [char_of (or 192 (drop_bit 6 code)), char_of (or 128 (and code 63))]
                   else [char_of code]) s)"

definition encode :: "string \<Rightarrow> EncodingType \<Rightarrow> string" where
  "encode s t = (case t of
       Url \<Rightarrow> urlEncode s
     | DoubleUrl \<Rightarrow> urlEncode (urlEncode s)
     | Unicode \<Rightarrow> unicodeEncode s
     | Hex \<Rightarrow> hexEncode s
     | Octal \<Rightarrow> octalEncode s
     | HtmlEntity \<Rightarrow> htmlEntityEncode s
     | Base64 \<Rightarrow> base64Encode s
     | OverlongUtf8 \<Rightarrow> overlongUtf8Encode s)"

text \<open>\<^verbatim>\<open>decode\<close>. The three decoders it dispatches to can leave the range of code
  units below 256 (and \<^verbatim>\<open>decodeURIComponent\<close> can throw \<^verbatim>\<open>URIError\<close>), so they are
  parameters: \<open>uri\<close> is \<^verbatim>\<open>decodeURIComponent\<close>, \<open>b64\<close> is
  \<^verbatim>\<open>Buffer.from(s, "base64").toString("utf-8")\<close> and \<open>html\<close> is
  \<^verbatim>\<open>htmlEntityDecode\<close>. Every other kind takes the \<^verbatim>\<open>default\<close> branch.\<close>

datatype js_error = URIError | RangeError

record decoders =
  dec_uri :: "string \<Rightarrow> js_error + string"
  dec_b64 :: "string \<Rightarrow> string"
  dec_html :: "string \<Rightarrow> string"

definition decode :: "decoders \<Rightarrow> string \<Rightarrow> EncodingType \<Rightarrow> js_error + string" where
  "decode rt s t = (case t of
       Url \<Rightarrow> dec_uri rt s
     | DoubleUrl \<Rightarrow> (case dec_uri rt s of Inl e \<Rightarrow> Inl e | Inr s' \<Rightarrow> dec_uri rt s')
     | Base64 \<Rightarrow> Inr (dec_b64 rt s)
     | HtmlEntity \<Rightarrow> Inr (dec_html rt s)
     | _ \<Rightarrow> Inr s)"

text \<open>\<^verbatim>\<open>s.replace(/p/g, r)\<close> for a pattern that is a literal, non-empty string and a
  replacement without \<^verbatim>\<open>$\<close>: matches are taken from left to right and do not
  overlap.\<close>

function replaceAll :: "string \<Rightarrow> string \<Rightarrow> string \<Rightarrow> string" where
  "replaceAll p r [] = []"
| "replaceAll p r (c # cs) =
     (if p \<noteq> [] \<and> take (length p) (c # cs) = p
      then r @ replaceAll p r (drop (length p) (c # cs))
      else c # replaceAll p r cs)"
  by pat_completeness auto
termination
  by (relation "measure (\<lambda>(p, r, s). length s)") auto

definition pathTraversal :: "nat \<Rightarrow> EncodingType option \<Rightarrow> string" where
  "pathTraversal depth encoding = (let traversal = repeat ''../'' depth in
     case encoding of Some t \<Rightarrow> encode traversal t | None \<Rightarrow> traversal)"

definition pathTraversalVariants :: "nat \<Rightarrow> string list" where
  "pathTraversalVariants depth = (let base = repeat ''../'' depth in
     [ base,
       repeat [CHR ''.'', CHR ''.'', CHR 0x5C] depth,
       urlEncode base,
       urlEncode (urlEncode base),
       replaceAll ''..'' ''..%00'' base,
       replaceAll ''..'' ''..%2500'' base,
       replaceAll ''/'' ''%2f'' base,
       replaceAll ''/'' ''%252f'' base,
       repeat ''....//'' depth,
       repeat ''..;/'' depth,
       repeat [CHR ''.'', CHR ''.'', CHR 0x5C, CHR ''/''] depth,
       repeat ''..%c0%af'' depth,
       repeat ''..%c1%9c'' depth ])"

section \<open>HTTP/2 frames\<close>

definition PRIORITY :: nat where "PRIORITY = 2"
definition RST_STREAM :: nat where "RST_STREAM = 3"
definition SETTINGS :: nat where "SETTINGS = 4"
definition PUSH_PROMISE :: nat where "PUSH_PROMISE = 5"
definition PING :: nat where "PING = 6"
definition GOAWAY :: nat where "GOAWAY = 7"
definition WINDOW_UPDATE :: nat where "WINDOW_UPDATE = 8"
definition CONTINUATION :: nat where "CONTINUATION = 9"

definition FLAG_END_STREAM :: nat where "FLAG_END_STREAM = 0x01"
definition FLAG_END_HEADERS :: nat where "FLAG_END_HEADERS = 0x04"

record Http2Frame =
  f_length :: nat
  f_type :: nat
  f_flags :: nat
  f_streamId :: nat
  f_payload :: buffer

text \<open>Big-endian reads and writes of \<^verbatim>\<open>Buffer\<close>. A write of a value that does not
  fit, and a read past the end, throw \<^verbatim>\<open>RangeError\<close>.\<close>

definition beValue :: "buffer \<Rightarrow> nat" where
  "beValue bs = foldl (\<lambda>a x. a * 256 + unat x) 0 bs"


definition writeUInt8 :: "nat \<Rightarrow> js_error + buffer" where
  "writeUInt8 v = (if v < 2 ^ 8 then Inr [of_nat v] else Inl RangeError)"

definition writeUIntBE3 :: "nat \<Rightarrow> js_error + buffer" where
  "writeUIntBE3 v =
     (if v < 2 ^ 24 then Inr [of_nat (v div 65536), of_nat (v div 256), of_nat v]
      else Inl RangeError)"

definition writeUInt32BE :: "nat \<Rightarrow> js_error + buffer" where
  "writeUInt32BE v =
     (if v < 2 ^ 32
      then Inr [of_nat (v div 16777216), of_nat (v div 65536), of_nat (v div 256), of_nat v]
      else Inl RangeError)"

text \<open>\<^verbatim>\<open>x & 0x7fffffff\<close> on a non-negative integer: the 32-bit conversion keeps the
  low 32 bits and the mask clears bit 31, which is the bitwise conjunction on \<^typ>\<open>nat\<close>.\<close>

definition clearReserved :: "nat \<Rightarrow> nat" where
  "clearReserved x = and x 0x7fffffff"

text \<open>\<^verbatim>\<open>buildFrame\<close>: the four header fields are written in order, so the first value out
  of range decides the exception.\<close>

definition buildFrame :: "nat \<Rightarrow> nat \<Rightarrow> nat \<Rightarrow> buffer \<Rightarrow> js_error + buffer" where
  "buildFrame type flags streamId payload =
     (case writeUIntBE3 (length payload) of Inl e \<Rightarrow> Inl e | Inr len \<Rightarrow>
      case writeUInt8 type of Inl e \<Rightarrow> Inl e | Inr ty \<Rightarrow>
      case writeUInt8 flags of Inl e \<Rightarrow> Inl e | Inr fl \<Rightarrow>
      case writeUInt32BE (clearReserved streamId) of Inl e \<Rightarrow> Inl e | Inr sid \<Rightarrow>
        Inr (len @ ty @ fl @ sid @ payload))"

text \<open>\<^verbatim>\<open>parseFrame\<close>: \<open>None\<close> is \<^verbatim>\<open>null\<close>. The four reads happen after the first
  guard, which leaves at least nine bytes from the offset, so none of them can throw.\<close>

definition parseFrame :: "buffer \<Rightarrow> nat \<Rightarrow> (Http2Frame \<times> nat) option" where
  "parseFrame buffer offset =
     (if int (length buffer) - int offset < 9 then None
      else
        let len = beValue (take 3 (drop offset buffer));
            type = beValue (take 1 (drop (offset + 3) buffer));
            flags = beValue (take 1 (drop (offset + 4) buffer));
            streamId = clearReserved (beValue (take 4 (drop (offset + 5) buffer)))
        in if int (length buffer) - int offset < 9 + int len then None
           else Some (\<lparr> f_length = len, f_type = type, f_flags = flags, f_streamId = streamId,
                        f_payload = take len (drop (offset + 9) buffer) \<rparr>,
                      9 + len))"

text \<open>\<^verbatim>\<open>parseAllFrames\<close>: frames are read until the parser returns \<^verbatim>\<open>null\<close>.\<close>

function parseAllFramesFrom :: "buffer \<Rightarrow> nat \<Rightarrow> Http2Frame list" where
  "parseAllFramesFrom buffer offset =
     (if offset < length buffer then
        (case parseFrame buffer offset of
           None \<Rightarrow> []
         | Some (frame, bytesRead) \<Rightarrow> frame # parseAllFramesFrom buffer (offset + bytesRead))
      else [])"
  by pat_completeness auto
termination
  by (relation "measure (\<lambda>(buffer, offset). length buffer - offset)")
     (auto simp: parseFrame_def Let_def split: if_splits)

definition parseAllFrames :: "buffer \<Rightarrow> Http2Frame list" where
  "parseAllFrames buffer = parseAllFramesFrom buffer 0"

text \<open>The nine header bytes of a frame, named for the statements about
  \<^const>\<open>buildFrame\<close> and \<^const>\<open>parseFrame\<close>.\<close>

definition frameHeaderBytes :: "nat \<Rightarrow> nat \<Rightarrow> nat \<Rightarrow> nat \<Rightarrow> buffer" where
  "frameHeaderBytes n T F S =
     [of_nat (n div 65536), of_nat (n div 256), of_nat n, of_nat T, of_nat F,
      of_nat (S div 16777216), of_nat (S div 65536), of_nat (S div 256), of_nat S]"

section \<open>Regular expressions\<close>











section \<open>Response parser\<close>
















section \<open>Pipelined response splitter\<close>
















section \<open>HPACK\<close>

definition HPACK_STATIC_TABLE :: "(string \<times> string) list" where
  "HPACK_STATIC_TABLE =
     [('''', ''''),
      ('':authority'', ''''),
      ('':method'', ''GET''),
      ('':method'', ''POST''),
      ('':path'', ''/''),
      ('':path'', ''/index.html''),
      ('':scheme'', ''http''),
      ('':scheme'', ''https''),
      ('':status'', ''200''),
      ('':status'', ''204''),
      ('':status'', ''206''),
      ('':status'', ''304''),
      ('':status'', ''400''),
      ('':status'', ''404''),
      ('':status'', ''500''),
      (''accept-charset'', ''''),
      (''accept-encoding'', ''gzip, deflate''),
      (''accept-language'', ''''),
      (''accept-ranges'', ''''),
      (''accept'', ''''),
      (''access-control-allow-origin'', ''''),
      (''age'', ''''),
      (''allow'', ''''),
      (''authorization'', ''''),
      (''cache-control'', ''''),
      (''content-disposition'', ''''),
      (''content-encoding'', ''''),
      (''content-language'', ''''),
      (''content-length'', ''''),
      (''content-location'', ''''),
      (''content-range'', ''''),
      (''content-type'', ''''),
      (''cookie'', ''''),
      (''date'', ''''),
      (''etag'', ''''),
      (''expect'', ''''),
      (''expires'', ''''),
      (''from'', ''''),
      (''host'', ''''),
      (''if-match'', ''''),
      (''if-modified-since'', ''''),
      (''if-none-match'', ''''),
      (''if-range'', ''''),
      (''if-unmodified-since'', ''''),
      (''last-modified'', ''''),
      (''link'', ''''),
      (''location'', ''''),
      (''max-forwards'', ''''),
      (''proxy-authenticate'', ''''),
      (''proxy-authorization'', ''''),
      (''range'', ''''),
      (''referer'', ''''),
      (''refresh'', ''''),
      (''retry-after'', ''''),
      (''server'', ''''),
      (''set-cookie'', ''''),
      (''strict-transport-security'', ''''),
      (''transfer-encoding'', ''''),
      (''user-agent'', ''''),
      (''vary'', ''''),
      (''via'', ''''),
      (''www-authenticate'', '''')]"

text \<open>The field \<^verbatim>\<open>maxDynamicTableSize\<close> of the encoder.\<close>

definition maxDynamicTableSize :: nat where
  "maxDynamicTableSize = 4096"

subsection \<open>Encoder\<close>

text \<open>The two table searches run over the indices 1 to 61 and return 0 when nothing
  matches.\<close>

fun findIndexFrom :: "('a \<Rightarrow> bool) \<Rightarrow> 'a list \<Rightarrow> nat \<Rightarrow> nat" where
  "findIndexFrom P [] i = 0"
| "findIndexFrom P (x # xs) i = (if P x then i else findIndexFrom P xs (Suc i))"

definition findStaticTableIndex :: "string \<Rightarrow> nat" where
  "findStaticTableIndex name =
     findIndexFrom (\<lambda>entry. fst entry = toLowerCase name) (tl HPACK_STATIC_TABLE) 1"

definition findStaticTableExactIndex :: "string \<Rightarrow> string \<Rightarrow> nat" where
  "findStaticTableExactIndex name val =
     findIndexFrom (\<lambda>entry. fst entry = toLowerCase name \<and> snd entry = val)
       (tl HPACK_STATIC_TABLE) 1"

text \<open>\<^verbatim>\<open>encodeInteger\<close>: the numbers it collects, before \<^verbatim>\<open>Buffer.from\<close> reduces each
  to a byte. The loop emits groups of seven bits, low group first.\<close>

function encodeIntegerRest :: "nat \<Rightarrow> nat list" where
  "encodeIntegerRest v =
     (if v \<ge> 128 then (v mod 128 + 128) # encodeIntegerRest (v div 128) else [v])"
  by pat_completeness auto
termination
  by (relation "measure (\<lambda>v. v)") auto

declare encodeIntegerRest.simps [simp del]

definition encodeInteger :: "nat \<Rightarrow> nat \<Rightarrow> nat \<Rightarrow> buffer" where
  "encodeInteger v prefixBits prefixValue =
     (let maxPrefix = 2 ^ prefixBits - 1
      in if v < maxPrefix then [of_nat (or prefixValue v)]
         else map of_nat (or prefixValue maxPrefix # encodeIntegerRest (v - maxPrefix)))"

definition encodeString :: "string \<Rightarrow> buffer" where
  "encodeString str =
     (let strBytes = Buffer_from str in encodeInteger (length strBytes) 7 0x00 @ strBytes)"

definition encodeLiteralEntry :: "string \<times> string \<Rightarrow> buffer" where
  "encodeLiteralEntry h =
     (let staticIndex = findStaticTableIndex (fst h)
      in if staticIndex > 0 then [of_nat (or 0x00 staticIndex)] @ encodeString (snd h)
         else [0x00] @ encodeString (fst h) @ encodeString (snd h))"

definition encodeHeadersLiteral :: "(string \<times> string) list \<Rightarrow> buffer" where
  "encodeHeadersLiteral headers = concat (map encodeLiteralEntry headers)"

definition encodeIndexedEntry :: "string \<times> string \<Rightarrow> buffer" where
  "encodeIndexedEntry h =
     (let exactIndex = findStaticTableExactIndex (fst h) (snd h)
      in if exactIndex > 0 then encodeInteger exactIndex 7 0x80
         else
           (let nameIndex = findStaticTableIndex (fst h)
            in if nameIndex > 0 then encodeInteger nameIndex 6 0x40 @ encodeString (snd h)
               else [0x40] @ encodeString (fst h) @ encodeString (snd h)))"

definition encodeHeaders :: "(string \<times> string) list \<Rightarrow> buffer" where
  "encodeHeaders headers = concat (map encodeIndexedEntry headers)"

subsection \<open>Decoder\<close>

text \<open>\<^verbatim>\<open>buffer[i]\<close> as the decoder uses it: every read is an operand of \<^verbatim>\<open>&\<close>, where
  the \<^verbatim>\<open>undefined\<close> of an index outside the buffer counts as 0.\<close>

definition byteAt :: "buffer \<Rightarrow> int \<Rightarrow> nat" where
  "byteAt buffer i = (if 0 \<le> i \<and> i < int (length buffer) then unat (buffer ! nat i) else 0)"

text \<open>\<^verbatim>\<open>x << m\<close> for \<open>0 \<le> x\<close>: the shift count is taken modulo 32 and the result is
  a signed 32-bit integer.\<close>

definition toInt32 :: "int \<Rightarrow> int" where
  "toInt32 v = (let u = v mod 2 ^ 32 in if u \<ge> 2 ^ 31 then u - 2 ^ 32 else u)"

definition shiftLeft :: "nat \<Rightarrow> nat \<Rightarrow> int" where
  "shiftLeft x m = toInt32 (int x * 2 ^ (m mod 32))"

text \<open>The \<^verbatim>\<open>do ... while\<close> loop of \<^verbatim>\<open>decodeInteger\<close>; \<open>idx\<close> is
  \<^verbatim>\<open>offset + bytesRead\<close>. The result is the value and the index after the last byte
  read. A byte outside the buffer reads as 0 and ends the loop.\<close>

function decodeIntegerLoop :: "buffer \<Rightarrow> int \<Rightarrow> int \<Rightarrow> nat \<Rightarrow> int \<times> int" where
  "decodeIntegerLoop buffer idx v m =
     (let byte = byteAt buffer idx;
          v' = v + shiftLeft (and byte 0x7f) m
      in if and byte 0x80 \<noteq> 0 then decodeIntegerLoop buffer (idx + 1) v' (m + 7)
         else (v', idx + 1))"
  by pat_completeness auto
termination
proof (relation "measure (\<lambda>(buffer, idx, v, m). nat (int (length buffer) - idx))")
  show "wf (measure (\<lambda>(buffer, idx, v, m). nat (int (length buffer) - idx)))"
    by simp
next
  fix buffer :: buffer and idx v :: int and m x xa
  assume "x = byteAt buffer idx" and "and x 0x80 \<noteq> 0"
  then have "0 \<le> idx \<and> idx < int (length buffer)"
    by (auto simp: byteAt_def split: if_splits)
  then show "((buffer, idx + 1, xa, m + 7), (buffer, idx, v, m))
      \<in> measure (\<lambda>(buffer, idx, v, m). nat (int (length buffer) - idx))"
    by simp
qed

declare decodeIntegerLoop.simps [simp del]

text \<open>\<^verbatim>\<open>decodeInteger\<close> returns the value and the number of bytes read.\<close>

definition decodeInteger :: "buffer \<Rightarrow> int \<Rightarrow> nat \<Rightarrow> int \<times> int" where
  "decodeInteger buffer offset prefixBits =
     (let maxPrefix = 2 ^ prefixBits - 1;
          v = int (and (byteAt buffer offset) maxPrefix)
      in if v = int maxPrefix then
           (case decodeIntegerLoop buffer (offset + 1) v 0 of (v', next) \<Rightarrow> (v', next - offset))
         else (v, 1))"

text \<open>\<^verbatim>\<open>buffer.subarray(start, end)\<close>: a negative index counts from the end, and both
  are clamped to the buffer.\<close>

definition subarray :: "buffer \<Rightarrow> int \<Rightarrow> int \<Rightarrow> buffer" where
  "subarray buffer s e =
     (let n = int (length buffer);
          s' = (if s < 0 then max (n + s) 0 else min s n);
          e' = (if e < 0 then max (n + e) 0 else min e n)
      in take (nat (e' - s')) (drop (nat s') buffer))"

text \<open>\<^verbatim>\<open>decodeString\<close>: the Huffman flag is read and both of its branches decode the
  bytes as they are.\<close>

definition decodeString :: "buffer \<Rightarrow> int \<Rightarrow> string \<times> int" where
  "decodeString buffer offset =
     (case decodeInteger buffer offset 7 of
        (len, lenBytes) \<Rightarrow>
          (let strStart = offset + lenBytes
           in (toString (subarray buffer strStart (strStart + len)), lenBytes + len)))"

definition getTableEntry :: "(string \<times> string) list \<Rightarrow> int \<Rightarrow> (string \<times> string) option" where
  "getTableEntry dynamicTable index =
     (if index \<le> 0 then None
      else if index < int (length HPACK_STATIC_TABLE) then Some (HPACK_STATIC_TABLE ! nat index)
      else
        (let dynamicIndex = nat (index - int (length HPACK_STATIC_TABLE))
         in if dynamicIndex < length dynamicTable then Some (dynamicTable ! dynamicIndex)
            else None))"

text \<open>The name of a literal representation: taken from the table when the index is
  positive (the empty string when the table has no such entry), read as a string
  otherwise. The result is the name and the offset after it.\<close>

definition decodeName ::
  "(string \<times> string) list \<Rightarrow> buffer \<Rightarrow> int \<Rightarrow> int \<Rightarrow> string \<times> int" where
  "decodeName dynamicTable buffer nameIndex offset =
     (if nameIndex > 0 then
        (case getTableEntry dynamicTable nameIndex of
           Some entry \<Rightarrow> (fst entry, offset)
         | None \<Rightarrow> ('''', offset))
      else (case decodeString buffer offset of (nameStr, nameBytes) \<Rightarrow> (nameStr, offset + nameBytes)))"

text \<open>One iteration of the loop of \<^verbatim>\<open>decodeHeaders\<close>, on the state of the header map,
  the dynamic table of the decoder and the offset.\<close>

definition decodeStep ::
  "buffer \<Rightarrow> (string \<times> string) list \<times> (string \<times> string) list \<times> int
     \<Rightarrow> (string \<times> string) list \<times> (string \<times> string) list \<times> int" where
  "decodeStep buffer st =
     (case st of (headers, dynamicTable, offset) \<Rightarrow>
        let byte = byteAt buffer offset in
        if and byte 0x80 \<noteq> 0 then
          (case decodeInteger buffer offset 7 of
             (index, bytesRead) \<Rightarrow>
               (case getTableEntry dynamicTable index of
                  Some entry \<Rightarrow> (Map_set headers (fst entry) (snd entry), dynamicTable,
                                  offset + bytesRead)
                | None \<Rightarrow> (headers, dynamicTable, offset + bytesRead)))
        else if and byte 0x40 \<noteq> 0 then
          (case decodeInteger buffer offset 6 of
             (nameIndex, indexBytes) \<Rightarrow>
               (case decodeName dynamicTable buffer nameIndex (offset + indexBytes) of
                  (name, offset') \<Rightarrow>
                    (case decodeString buffer offset' of
                       (val, valueBytes) \<Rightarrow>
                         (Map_set headers name val, (name, val) # dynamicTable,
                          offset' + valueBytes))))
        else if and byte 0x20 \<noteq> 0 then
          (case decodeInteger buffer offset 5 of
             (maxSize, bytesRead) \<Rightarrow>
               (headers, if maxSize = 0 then [] else dynamicTable, offset + bytesRead))
        else
          (case decodeInteger buffer offset 4 of
             (nameIndex, indexBytes) \<Rightarrow>
               (case decodeName dynamicTable buffer nameIndex (offset + indexBytes) of
                  (name, offset') \<Rightarrow>
                    (case decodeString buffer offset' of
                       (val, valueBytes) \<Rightarrow>
                         (Map_set headers name val, dynamicTable, offset' + valueBytes)))))"

text \<open>\<^verbatim>\<open>decodeHeaders\<close>. An offset can move backwards (a length decoded through the
  32-bit shift can be negative), so the loop need not end: the first argument bounds
  the number of iterations and \<open>None\<close> means that the bound was reached. The result is
  the header map and the dynamic table the decoder keeps for its next call.\<close>

fun decodeLoop ::
  "nat \<Rightarrow> buffer \<Rightarrow> (string \<times> string) list \<times> (string \<times> string) list \<times> int
     \<Rightarrow> ((string \<times> string) list \<times> (string \<times> string) list) option" where
  "decodeLoop fuel buffer (headers, dynamicTable, offset) =
     (if offset < int (length buffer) then
        (case fuel of
           0 \<Rightarrow> None
         | Suc fuel' \<Rightarrow> decodeLoop fuel' buffer (decodeStep buffer (headers, dynamicTable, offset)))
      else Some (headers, dynamicTable))"

definition decodeHeaders ::
  "nat \<Rightarrow> (string \<times> string) list \<Rightarrow> buffer
     \<Rightarrow> ((string \<times> string) list \<times> (string \<times> string) list) option" where
  "decodeHeaders fuel dynamicTable buffer = decodeLoop fuel buffer ([], dynamicTable, 0)"

text \<open>Predicates and abbreviations for the statements about the codec: an entry whose
  name and value are ASCII, whose name has no upper-case letter, and whose lengths are
  below a bound; and the map obtained by setting entries one after the other.\<close>

definition roundTrips :: "string \<times> string \<Rightarrow> bool" where
  "roundTrips h = (ascii (fst h) \<and> ascii (snd h) \<and> toLowerCase (fst h) = fst h
     \<and> length (fst h) < 2 ^ 31 \<and> length (snd h) < 2 ^ 31)"

definition encodable :: "string \<times> string \<Rightarrow> bool" where
  "encodable h = (ascii (fst h) \<and> ascii (snd h) \<and> toLowerCase (fst h) = fst h
     \<and> length (fst h) < maxDynamicTableSize \<and> length (snd h) < maxDynamicTableSize)"

definition setAll ::
  "(string \<times> string) list \<Rightarrow> (string \<times> string) list \<Rightarrow> (string \<times> string) list" where
  "setAll H hs = foldl (\<lambda>m h. Map_set m (fst h) (snd h)) H hs"

section \<open>HTTP/2 response extraction\<close>

















chapter \<open>Properties\<close>

section \<open>Request builder: emitted bytes\<close>

lemma join_snoc_empty: "join sep (ls @ ['''']) = concat (map (\<lambda>l. l @ sep) ls)"
  by (induction sep ls rule: join.induct) auto

text \<open>What \<^const>\<open>build\<close> emits for any plan: every collected line is followed by exactly
  one line ending, the pushed empty string contributes nothing of its own, and the body
  follows directly.\<close>

lemma build_emits:
  "build b = requestLine b @ b_lineEnding b
     @ concat (map (\<lambda>h. headerLine h @ b_lineEnding b) (b_headers b))
     @ (if bodyTruthy (b_body b) then bodyString (b_body b) else '''')"
proof -
  have "buildLines b = (requestLine b # map headerLine (b_headers b)) @ ['''']"
    by (simp add: buildLines_def)
  then have "join (b_lineEnding b) (buildLines b)
      = concat (map (\<lambda>l. l @ b_lineEnding b) (requestLine b # map headerLine (b_headers b)))"
    by (simp only: join_snoc_empty)
  then show ?thesis
    by (simp add: build_def comp_def)
qed

lemma buildBuffer_emits:
  "buildBuffer b = Buffer_from (requestLine b @ b_lineEnding b
     @ concat (map (\<lambda>h. headerLine h @ b_lineEnding b) (b_headers b)))
     @ (if bodyTruthy (b_body b) then bodyBuffer (b_body b) else [])"
proof -
  have "buildLines b = (requestLine b # map headerLine (b_headers b)) @ ['''']"
    by (simp add: buildLines_def)
  then have "join (b_lineEnding b) (buildLines b)
      = concat (map (\<lambda>l. l @ b_lineEnding b) (requestLine b # map headerLine (b_headers b)))"
    by (simp only: join_snoc_empty)
  then show ?thesis
    by (simp add: buildBuffer_def comp_def)
qed

text \<open>
  Claim C1. The claim asks for an empty separator line between the last header line and
  the body, so that with CRLF line endings and a body the output holds two consecutive
  line endings. The code pushes an empty string and joins: the last header line gets a
  single line ending and the body follows at once. For the plan with the header
  \<^verbatim>\<open>Host: a\<close> and the body \<^verbatim>\<open>x\<close> the output is
  \<^verbatim>\<open>GET / HTTP/1.1\r\nHost: a\r\nx\<close>, in which CRLF CRLF does not occur.
\<close>

theorem build_missing_blank_line:
  "build (body (StringBody ''x'') (header ''Host'' ''a'' newRequestBuilder))
     = ''GET / HTTP/1.1'' @ CRLF @ ''Host: a'' @ CRLF @ ''x''
   \<and> indexOf (build (body (StringBody ''x'') (header ''Host'' ''a'' newRequestBuilder)))
        (CRLF @ CRLF) = None"
  by (simp add: build_def body_def header_def newRequestBuilder_def buildLines_def
      requestLine_def headerLine_def indexOf_def CRLF_def CR_def LF_def)

text \<open>
  Claim C7. For every name and value, \<^const>\<open>malformedHeader\<close> appends one raw entry, and
  the raw line of each of the nine kinds is the one the specification lists.
\<close>

theorem malformedHeader_lines:
  "b_headers (malformedHeader n v t b)
     = b_headers b @ [\<lparr>h_name = '''', h_value = '''', h_raw = Some (malformedRaw n v t)\<rparr>]
   \<and> malformedRaw n v SpaceBeforeColon = n @ '' : '' @ v
   \<and> malformedRaw n v TabSeparator = n @ '':'' @ [CHR 0x09] @ v
   \<and> malformedRaw n v NoSpaceAfterColon = n @ '':'' @ v
   \<and> malformedRaw n v DoubleSpace = n @ '':  '' @ v
   \<and> malformedRaw n v CrlfInjection = n @ '': '' @ v @ [CHR 0x0D, CHR 0x0A] @ ''Injected: header''
   \<and> malformedRaw n v NullByte = n @ '': '' @ v @ [CHR 0x00] @ ''injected''
   \<and> malformedRaw n v OversizedHeader = n @ '': '' @ replicate 8192 (CHR ''A'') @ v
   \<and> malformedRaw n v EmptyHeaderName = '': '' @ v
   \<and> malformedRaw n v EmptyHeaderValue = n @ '': ''"
  by (simp add: malformedHeader_def TAB_def CRLF_def CR_def LF_def NUL_def repeat_def)

section \<open>Request builder: HTTP/2 projections\<close>

lemma Object_set_keys: "fst ` set (Object_set m k v) \<subseteq> insert k (fst ` set m)"
  by (simp add: Object_set_def AList.dom_update subset_insertI)

lemma Object_set_no_host:
  "''host'' \<notin> fst ` set m \<Longrightarrow> k \<noteq> ''host'' \<Longrightarrow> ''host'' \<notin> fst ` set (Object_set m k v)"
  using Object_set_keys [of m k v] by blast

lemma http2RequestStep_no_host:
  assumes "''host'' \<notin> fst ` set m"
  shows "''host'' \<notin> fst ` set (http2RequestStep m h)"
proof (cases "rawTruthy h")
  case True
  show ?thesis
  proof (cases "parseRaw (the (h_raw h))")
    case None
    with True assms show ?thesis by (simp add: http2RequestStep_def)
  next
    case (Some nv)
    obtain n v where nv: "nv = (n, v)" by (cases nv)
    show ?thesis
      using True Some nv assms Object_set_no_host [OF assms, of n v]
      by (simp add: http2RequestStep_def)
  qed
next
  case False
  then show ?thesis
    using assms Object_set_no_host [OF assms, of "toLowerCase (h_name h)" "h_value h"]
    by (simp add: http2RequestStep_def)
qed

lemma foldl_http2RequestStep_no_host:
  "''host'' \<notin> fst ` set m \<Longrightarrow> ''host'' \<notin> fst ` set (foldl http2RequestStep m hs)"
  by (induction hs arbitrary: m) (simp_all add: http2RequestStep_no_host)

text \<open>\<^const>\<open>buildHttp2Request\<close> never lets a \<^verbatim>\<open>host\<close> entry through, raw or structured.\<close>

lemma buildHttp2Request_no_host: "''host'' \<notin> fst ` set (p_headers (buildHttp2Request b))"
  by (simp add: buildHttp2Request_def foldl_http2RequestStep_no_host)

lemma Map_set_distinct: "distinct (map fst m) \<Longrightarrow> distinct (map fst (Map_set m k v))"
  by (simp add: Map_set_def AList.distinct_update)

lemma http2HeadersStep_distinct:
  "distinct (map fst m) \<Longrightarrow> distinct (map fst (http2HeadersStep m h))"
  by (simp add: http2HeadersStep_def Map_set_distinct split: option.splits prod.splits)

lemma foldl_http2HeadersStep_distinct:
  "distinct (map fst m) \<Longrightarrow> distinct (map fst (foldl http2HeadersStep m hs))"
  by (induction hs arbitrary: m) (simp_all add: http2HeadersStep_distinct)

text \<open>Each name occurs once in the HTTP/2 header map, and a structured entry added
  last decides the value of its name.\<close>

lemma buildHttp2Headers_distinct: "distinct (map fst (buildHttp2Headers b))"
  by (simp add: buildHttp2Headers_def foldl_http2HeadersStep_distinct Map_set_distinct)

lemma buildHttp2Headers_last_structured:
  assumes "b_headers b = hs @ [\<lparr>h_name = n, h_value = v, h_raw = None\<rparr>]"
    and "toLowerCase n \<noteq> ''host''"
  shows "map_of (buildHttp2Headers b) (toLowerCase n) = Some v"
  using assms
  by (simp add: buildHttp2Headers_def http2HeadersStep_def rawTruthy_def Map_set_def
      AList.update_conv')

text \<open>
  Claim C9. The claim says that both HTTP/2 projections suppress any \<^verbatim>\<open>host\<close> entry.
  \<^const>\<open>buildHttp2Request\<close> does; \<^const>\<open>buildHttp2Headers\<close> tests the name against
  \<^verbatim>\<open>host\<close> for structured entries only, so the raw line \<^verbatim>\<open>Host: evil.com\<close>
  reaches the header map next to \<^verbatim>\<open>:authority\<close>, while the sibling projection of
  the same plan drops it.
\<close>

theorem buildHttp2Headers_keeps_raw_host:
  "buildHttp2Headers (rawHeader ''Host: evil.com'' (host ''t.com'' newRequestBuilder))
     = [('':method'', ''GET''), ('':path'', ''/''), ('':scheme'', ''http''),
        ('':authority'', ''t.com''), (''host'', ''evil.com'')]
   \<and> p_headers (buildHttp2Request (rawHeader ''Host: evil.com'' (host ''t.com'' newRequestBuilder)))
     = []"
  by code_simp

section \<open>Payload encoder\<close>

lemma repeat_Suc: "repeat s (Suc n) = s @ repeat s n"
  by (simp add: repeat_def)

lemma repeat_0: "repeat s 0 = []"
  by (simp add: repeat_def)

lemma encodeURIComponent_append:
  "encodeURIComponent (a @ b) = encodeURIComponent a @ encodeURIComponent b"
  by (simp add: encodeURIComponent_def)

lemma urlEncode_append: "urlEncode (a @ b) = urlEncode a @ urlEncode b"
  by (simp add: urlEncode_def encodeURIComponent_append)

lemma urlEncode_Nil: "urlEncode [] = []"
  by (simp add: urlEncode_def encodeURIComponent_def)

lemma urlEncode_dotdotslash: "urlEncode ''../'' = ''..%2F''"
  by code_simp

lemma urlEncode_dotdotpct: "urlEncode ''..%2F'' = ''..%252F''"
  by code_simp

lemma urlEncode_base: "urlEncode (repeat ''../'' d) = repeat ''..%2F'' d"
  by (induction d) (simp_all only: repeat_Suc repeat_0 urlEncode_append urlEncode_Nil urlEncode_dotdotslash)

lemma urlEncode_base2: "urlEncode (repeat ''..%2F'' d) = repeat ''..%252F'' d"
  by (induction d) (simp_all only: repeat_Suc repeat_0 urlEncode_append urlEncode_Nil urlEncode_dotdotpct)

lemma replaceAll_dots: "replaceAll ''..'' r (repeat ''../'' d) = repeat (r @ ''/'') d"
  by (induction d) (simp_all add: repeat_Suc repeat_0)

lemma replaceAll_slash: "replaceAll ''/'' r (repeat ''../'' d) = repeat (''..'' @ r) d"
  by (induction d) (simp_all add: repeat_Suc repeat_0)

text \<open>
  Claim C8. For every depth (the claim asks for depths from 1), \<^const>\<open>pathTraversalVariants\<close>
  returns the thirteen variants in the order of the specification; the encoded and
  replaced variants of the base are given in closed form as well.
\<close>

theorem pathTraversalVariants_list:
  "pathTraversalVariants d =
     [ repeat ''../'' d,
       repeat [CHR ''.'', CHR ''.'', CHR 0x5C] d,
       urlEncode (repeat ''../'' d),
       urlEncode (urlEncode (repeat ''../'' d)),
       replaceAll ''..'' ''..%00'' (repeat ''../'' d),
       replaceAll ''..'' ''..%2500'' (repeat ''../'' d),
       replaceAll ''/'' ''%2f'' (repeat ''../'' d),
       replaceAll ''/'' ''%252f'' (repeat ''../'' d),
       repeat ''....//'' d,
       repeat ''..;/'' d,
       repeat [CHR ''.'', CHR ''.'', CHR 0x5C, CHR ''/''] d,
       repeat ''..%c0%af'' d,
       repeat ''..%c1%9c'' d ]
   \<and> length (pathTraversalVariants d) = 13
   \<and> urlEncode (repeat ''../'' d) = repeat ''..%2F'' d
   \<and> urlEncode (urlEncode (repeat ''../'' d)) = repeat ''..%252F'' d
   \<and> replaceAll ''..'' ''..%00'' (repeat ''../'' d) = repeat ''..%00/'' d
   \<and> replaceAll ''..'' ''..%2500'' (repeat ''../'' d) = repeat ''..%2500/'' d
   \<and> replaceAll ''/'' ''%2f'' (repeat ''../'' d) = repeat ''..%2f'' d
   \<and> replaceAll ''/'' ''%252f'' (repeat ''../'' d) = repeat ''..%252f'' d"
  using replaceAll_dots [of "''..%00''" d] replaceAll_dots [of "''..%2500''" d]
    replaceAll_slash [of "''%2f''" d] replaceAll_slash [of "''%252f''" d]
  by (simp add: pathTraversalVariants_def urlEncode_base urlEncode_base2)

text \<open>
  Claim C10. \<^const>\<open>decode\<close> returns its argument unchanged for the kinds unicode, hex,
  octal and overlong-utf8, whatever the three implemented decoders do; so decoding an
  encoded string of these kinds gives back the encoded string, which is not the original
  whenever encoding changed it.
\<close>

theorem decode_identity_kinds:
  "decode rt s Unicode = Inr s \<and> decode rt s Hex = Inr s \<and> decode rt s Octal = Inr s
   \<and> decode rt s OverlongUtf8 = Inr s
   \<and> (\<forall>k \<in> {Unicode, Hex, Octal, OverlongUtf8}.
         decode rt (encode s k) k = Inr (encode s k)
         \<and> (encode s k \<noteq> s \<longrightarrow> decode rt (encode s k) k \<noteq> Inr s))"
  by (simp add: decode_def)

theorem decode_identity_kinds_witness:
  "Hex \<in> {Unicode, Hex, Octal, OverlongUtf8} \<and> encode ''a'' Hex \<noteq> ''a''
   \<and> decode \<lparr>dec_uri = Inr, dec_b64 = id, dec_html = id\<rparr> (encode ''a'' Hex) Hex
       = Inr (encode ''a'' Hex)
   \<and> decode \<lparr>dec_uri = Inr, dec_b64 = id, dec_html = id\<rparr> (encode ''a'' Hex) Hex
       \<noteq> Inr ''a''"
proof -
  have ne: "encode ''a'' Hex \<noteq> ''a''" by code_simp
  from decode_identity_kinds [of "\<lparr>dec_uri = Inr, dec_b64 = id, dec_html = id\<rparr>" "''a''"] ne
  show ?thesis by simp
qed

section \<open>HTTP/2 frames\<close>

lemma unat_byte: "unat (of_nat x :: 8 word) = x mod 256"
  by (simp add: unat_of_nat)

lemma split3:
  fixes v :: nat
  assumes "v < 2 ^ 24"
  shows "(v div 65536 mod 256 * 256 + v div 256 mod 256) * 256 + v mod 256 = v"
proof -
  have a: "v div 65536 mod 256 = v div 65536"
    using assms by (simp add: less_mult_imp_div_less)
  have b: "v mod 65536 = 256 * (v div 256 mod 256) + v mod 256"
    using mod_mult2_eq [of v 256 256] by simp
  have c: "v = 65536 * (v div 65536) + v mod 65536"
    by simp
  define x y z m where "x = v div 65536" and "y = v div 256 mod 256" and "z = v mod 256"
    and "m = v mod 65536"
  have "m = 256 * y + z" "v = 65536 * x + m"
    using b c by (simp_all only: x_def y_def z_def m_def)
  then have "(x * 256 + y) * 256 + z = v"
    by simp
  then show ?thesis
    by (simp only: a x_def y_def z_def)
qed

lemma split4:
  fixes v :: nat
  assumes "v < 2 ^ 32"
  shows "((v div 16777216 mod 256 * 256 + v div 65536 mod 256) * 256 + v div 256 mod 256) * 256
           + v mod 256 = v"
proof -
  have a: "v div 16777216 mod 256 = v div 16777216"
    using assms by (simp add: less_mult_imp_div_less)
  have b: "v mod 65536 = 256 * (v div 256 mod 256) + v mod 256"
    using mod_mult2_eq [of v 256 256] by simp
  have b': "v mod 16777216 = 65536 * (v div 65536 mod 256) + v mod 65536"
    using mod_mult2_eq [of v 65536 256] by simp
  have c: "v = 16777216 * (v div 16777216) + v mod 16777216"
    by simp
  define w x y z m n where "w = v div 16777216" and "x = v div 65536 mod 256"
    and "y = v div 256 mod 256" and "z = v mod 256" and "m = v mod 65536"
    and "n = v mod 16777216"
  have "m = 256 * y + z" "n = 65536 * x + m" "v = 16777216 * w + n"
    using b b' c by (simp_all only: w_def x_def y_def z_def m_def n_def)
  then have "((w * 256 + x) * 256 + y) * 256 + z = v"
    by simp
  then show ?thesis
    by (simp only: a w_def x_def y_def z_def)
qed

lemma beValue3:
  "v < 2 ^ 24 \<Longrightarrow> beValue [of_nat (v div 65536), of_nat (v div 256), of_nat v :: byte] = v"
  using split3 [of v] by (simp add: beValue_def unat_byte)

lemma beValue4:
  "v < 2 ^ 32 \<Longrightarrow> beValue [of_nat (v div 16777216), of_nat (v div 65536), of_nat (v div 256), of_nat v :: byte] = v"
  using split4 [of v] by (simp add: beValue_def unat_byte)

lemma beValue1: "v < 256 \<Longrightarrow> beValue [of_nat v :: byte] = v"
  by (simp add: beValue_def unat_byte)


lemma clearReserved_id: "S < 2 ^ 31 \<Longrightarrow> clearReserved S = S"
proof -
  assume "S < 2 ^ 31"
  have "and S (mask 31) = take_bit 31 S" by (simp add: take_bit_eq_mask)
  moreover have "mask 31 = (0x7fffffff :: nat)" by (simp add: mask_eq_exp_minus_1)
  ultimately show ?thesis using \<open>S < 2 ^ 31\<close>
    by (simp add: clearReserved_def take_bit_nat_eq_self)
qed

lemma buildFrame_bytes:
  assumes "T < 256" "F < 256" "S < 2 ^ 31" "length P < 2 ^ 24"
  shows "buildFrame T F S P = Inr (frameHeaderBytes (length P) T F S @ P)"
  using assms
  by (simp add: buildFrame_def writeUIntBE3_def writeUInt8_def writeUInt32BE_def
      clearReserved_id frameHeaderBytes_def)

lemma parseFrame_bytes:
  assumes "T < 256" "F < 256" "S < 2 ^ 31" "length P < 2 ^ 24"
  shows "parseFrame (pre @ frameHeaderBytes (length P) T F S @ P @ post) (length pre)
     = Some (\<lparr> f_length = length P, f_type = T, f_flags = F, f_streamId = S, f_payload = P \<rparr>,
             9 + length P)"
proof -
  have S32: "S < 2 ^ 32" using assms(3) by simp
  have l: "beValue [of_nat (length P div 65536), of_nat (length P div 256), of_nat (length P) :: byte]
      = length P"
    using assms(4) by (rule beValue3)
  have s: "beValue [of_nat (S div 16777216), of_nat (S div 65536), of_nat (S div 256), of_nat S :: byte] = S"
    using S32 by (rule beValue4)
  show ?thesis
    using assms(1,2)
    by (simp add: parseFrame_def Let_def frameHeaderBytes_def l s beValue1
        clearReserved_id [OF assms(3)])
qed

text \<open>
  Claim C6. For every type and flags byte, stream identifier below \<open>2 ^ 31\<close> and payload
  shorter than \<open>2 ^ 24\<close>, \<^const>\<open>buildFrame\<close> succeeds and \<^const>\<open>parseFrame\<close>, at
  offset 0 or at the frame's offset inside a longer buffer, returns the frame with these
  four components, its length, and \<open>9 + |P|\<close> bytes read. The parser returns \<^verbatim>\<open>null\<close>
  when fewer than 9 bytes, or fewer than 9 plus the announced length, remain from the
  offset.
\<close>

theorem frame_roundtrip:
  "(T < 256 \<and> F < 256 \<and> S < 2 ^ 31 \<and> length P < 2 ^ 24 \<longrightarrow>
      (case buildFrame T F S P of
         Inl e \<Rightarrow> False
       | Inr bs \<Rightarrow>
           length bs = 9 + length P
           \<and> parseFrame bs 0
               = Some (\<lparr> f_length = length P, f_type = T, f_flags = F, f_streamId = S,
                         f_payload = P \<rparr>, 9 + length P)
           \<and> parseFrame (pre @ bs @ post) (length pre)
               = Some (\<lparr> f_length = length P, f_type = T, f_flags = F, f_streamId = S,
                         f_payload = P \<rparr>, 9 + length P)))
   \<and> (int (length buffer) - int offset < 9 \<longrightarrow> parseFrame buffer offset = None)
   \<and> (int (length buffer) - int offset < 9 + int (beValue (take 3 (drop offset buffer)))
        \<longrightarrow> parseFrame buffer offset = None)"
proof (intro conjI impI)
  assume h: "T < 256 \<and> F < 256 \<and> S < 2 ^ 31 \<and> length P < 2 ^ 24"
  then have b: "buildFrame T F S P = Inr (frameHeaderBytes (length P) T F S @ P)"
    by (simp add: buildFrame_bytes)
  have p0: "parseFrame ([] @ frameHeaderBytes (length P) T F S @ P @ []) (length ([] :: buffer))
     = Some (\<lparr> f_length = length P, f_type = T, f_flags = F, f_streamId = S, f_payload = P \<rparr>,
             9 + length P)"
    using h by (intro parseFrame_bytes) simp_all
  have p1: "parseFrame (pre @ frameHeaderBytes (length P) T F S @ P @ post) (length pre)
     = Some (\<lparr> f_length = length P, f_type = T, f_flags = F, f_streamId = S, f_payload = P \<rparr>,
             9 + length P)"
    using h by (intro parseFrame_bytes) simp_all
  have len: "length (frameHeaderBytes (length P) T F S @ P) = 9 + length P"
    by (simp add: frameHeaderBytes_def)
  show "case buildFrame T F S P of
         Inl e \<Rightarrow> False
       | Inr bs \<Rightarrow>
           length bs = 9 + length P
           \<and> parseFrame bs 0
               = Some (\<lparr> f_length = length P, f_type = T, f_flags = F, f_streamId = S,
                         f_payload = P \<rparr>, 9 + length P)
           \<and> parseFrame (pre @ bs @ post) (length pre)
               = Some (\<lparr> f_length = length P, f_type = T, f_flags = F, f_streamId = S,
                         f_payload = P \<rparr>, 9 + length P)"
    using p0 p1 len by (simp add: b)
next
  assume "int (length buffer) - int offset < 9"
  then show "parseFrame buffer offset = None"
    by (simp add: parseFrame_def)
next
  assume "int (length buffer) - int offset < 9 + int (beValue (take 3 (drop offset buffer)))"
  then show "parseFrame buffer offset = None"
    by (simp add: parseFrame_def Let_def)
qed

theorem frame_roundtrip_witness:
  "(4::nat) < 256 \<and> (5::nat) < 256 \<and> (3::nat) < 2 ^ 31 \<and> length [0x82, 0x84 :: byte] < 2 ^ 24
   \<and> buildFrame 4 5 3 [0x82, 0x84] = Inr [0, 0, 2, 4, 5, 0, 0, 0, 3, 0x82, 0x84]
   \<and> parseFrame [0, 0, 2, 4, 5, 0, 0, 0, 3, 0x82, 0x84] 0
       = Some (\<lparr> f_length = 2, f_type = 4, f_flags = 5, f_streamId = 3,
                 f_payload = [0x82, 0x84] \<rparr>, 11)
   \<and> int (length [0, 0, 2 :: byte]) - int 0 < 9
   \<and> parseFrame [0, 0, 2] 0 = None
   \<and> int (length [0, 0, 2, 4, 5, 0, 0, 0, 3, 0x82 :: byte]) - int 0
        < 9 + int (beValue (take 3 (drop 0 [0, 0, 2, 4, 5, 0, 0, 0, 3, 0x82 :: byte])))
   \<and> parseFrame [0, 0, 2, 4, 5, 0, 0, 0, 3, 0x82] 0 = None"
proof -
  have b: "buildFrame 4 5 3 [0x82, 0x84] = Inr [0, 0, 2, 4, 5, 0, 0, 0, 3, 0x82, 0x84]"
    by (simp add: buildFrame_def writeUIntBE3_def writeUInt8_def writeUInt32BE_def
        clearReserved_def)
  show ?thesis
    using frame_roundtrip [of 4 5 3 "[0x82, 0x84]" "[]" "[]" "[0, 0, 2]" 0]
      frame_roundtrip [of 4 5 3 "[0x82, 0x84]" "[]" "[]" "[0, 0, 2, 4, 5, 0, 0, 0, 3, 0x82]" 0]
    by (simp add: b beValue_def)
qed

section \<open>Strings and buffers\<close>

text \<open>On ASCII the two conversions are inverse to each other.\<close>

lemma utf8Bytes_ascii: "(of_char c :: nat) < 128 \<Longrightarrow> utf8Bytes c = [of_char c]"
  by (simp add: utf8Bytes_def charCodeAt0_def)

lemma toString_Buffer_from: "ascii s \<Longrightarrow> toString (Buffer_from s) = s"
proof (induction s)
  case Nil
  then show ?case by (simp add: Buffer_from_def toString_def)
next
  case (Cons c cs)
  then have c: "(of_char c :: nat) < 128" and cs: "ascii cs"
    by (simp_all add: ascii_def)
  have "unat (of_nat (of_char c) :: 8 word) = of_char c"
    by (simp add: unat_of_nat)
  with Cons.IH [OF cs] utf8Bytes_ascii [OF c] show ?case
    by (simp add: Buffer_from_def toString_def)
qed





section \<open>Response parser\<close>













section \<open>Pipelined response splitter\<close>


lemma indexOfFrom_bounds:
  "indexOfFrom p s k = Some i \<Longrightarrow> k \<le> i \<and> i + length p \<le> k + length s"
proof (induction s arbitrary: k)
  case Nil
  then show ?case by (simp split: if_splits)
next
  case (Cons c cs)
  show ?case
  proof (cases "take (length p) (c # cs) = p")
    case True
    then have "length (take (length p) (c # cs)) = length p"
      by simp
    then have "length p = min (length p) (length (c # cs))"
      by (simp only: length_take)
    with True Cons.prems show ?thesis by simp
  next
    case False
    with Cons.prems have "indexOfFrom p cs (Suc k) = Some i" by simp
    from Cons.IH [OF this] show ?thesis by simp
  qed
qed






lemma indexOfAt_bounds:
  "from \<le> length s \<Longrightarrow> indexOfAt s p from = Some i \<Longrightarrow> i + length p \<le> length s"
  using indexOfFrom_bounds [of p "drop from s" "min from (length s)" i]
  by (simp add: indexOfAt_def min_def)









section \<open>HPACK\<close>

subsection \<open>Bits of a byte\<close>

lemma and_exp_nat: "and (x::nat) (2 ^ k) \<noteq> 0 \<longleftrightarrow> odd (x div 2 ^ k)"
  by (simp add: and_exp_eq_0_iff_not_bit bit_iff_odd)

lemma and_0x80: "0 < and (x::nat) 0x80 \<longleftrightarrow> odd (x div 128)"
  using and_exp_nat [of x 7] by simp

lemma and_0x40: "0 < and (x::nat) 0x40 \<longleftrightarrow> odd (x div 64)"
  using and_exp_nat [of x 6] by simp

lemma and_0x20: "0 < and (x::nat) 0x20 \<longleftrightarrow> odd (x div 32)"
  using and_exp_nat [of x 5] by simp

lemma and_maxPrefix: "and (x::nat) (2 ^ k - 1) = x mod 2 ^ k"
  using take_bit_eq_mask [of k x] by (simp add: mask_eq_exp_minus_1 take_bit_eq_mod)

lemma and_maxPrefix_Suc: "and (x::nat) (2 ^ k - Suc 0) = x mod 2 ^ k"
  using and_maxPrefix [of x k] by simp

lemma and_0x7f: "and (x::nat) 0x7f = x mod 128"
  using and_maxPrefix [of x 7] by simp

lemma or_exp_nat: "v < 2 ^ k \<Longrightarrow> or (2 ^ k) (v::nat) = 2 ^ k + v"
proof -
  assume v: "v < 2 ^ k"
  then have "\<not> bit v k"
    by (simp add: bit_iff_odd)
  then have "and v (2 ^ k) = 0"
    by (simp add: and_exp_eq_0_iff_not_bit)
  then have "and (2 ^ k) v = 0"
    by (simp add: and.commute)
  then show ?thesis
    by (rule disjunctive_add_eq_or [symmetric])
qed

lemma or_0x80: "v < 128 \<Longrightarrow> or 0x80 (v::nat) = 128 + v"
  using or_exp_nat [of v 7] by simp


subsection \<open>Reading bytes inside a buffer\<close>

lemma byteAt_append:
  "i < length bs \<Longrightarrow> byteAt (pre @ bs @ post) (int (length pre) + int i) = unat (bs ! i)"
  by (simp add: byteAt_def nat_add_distrib nth_append)

lemma byteAt_first: "byteAt (pre @ x # post) (int (length pre)) = unat x"
  by (simp add: byteAt_def)

subsection \<open>Integers\<close>

lemma shiftLeft_small:
  assumes "x * 2 ^ m < 2 ^ 31"
  shows "shiftLeft x m = int (x * 2 ^ m)"
proof (cases "x = 0")
  case True
  then show ?thesis by (simp add: shiftLeft_def toInt32_def)
next
  case False
  then have "(2::nat) ^ m \<le> x * 2 ^ m" by simp
  then have "(2::nat) ^ m < 2 ^ 31" using assms by (rule le_less_trans)
  then have m: "m < 31" by (rule power_less_imp_less_exp [rotated]) simp
  have "int x * 2 ^ m = int (x * 2 ^ m)" by simp
  moreover have "int (x * 2 ^ m) < 2 ^ 31"
    using assms by (metis of_nat_less_iff of_nat_numeral of_nat_power)
  moreover have "0 \<le> int (x * 2 ^ m)" by simp
  ultimately show ?thesis
    using m by (simp add: shiftLeft_def toInt32_def Let_def)
qed

lemma encodeIntegerRest_nonempty: "encodeIntegerRest w \<noteq> []"
  by (subst encodeIntegerRest.simps) simp

lemma decodeIntegerLoop_more:
  "byteAt buffer idx = b \<Longrightarrow> odd (b div 128) \<Longrightarrow>
   decodeIntegerLoop buffer idx v m
     = decodeIntegerLoop buffer (idx + 1) (v + shiftLeft (b mod 128) m) (m + 7)"
  by (subst decodeIntegerLoop.simps) (simp add: Let_def and_0x80 and_0x7f)

lemma decodeIntegerLoop_last:
  "byteAt buffer idx = b \<Longrightarrow> even (b div 128) \<Longrightarrow>
   decodeIntegerLoop buffer idx v m = (v + shiftLeft (b mod 128) m, idx + 1)"
  by (subst decodeIntegerLoop.simps) (simp add: Let_def and_0x80 and_0x7f)

lemma decodeIntegerLoop_encoded:
  "w * 2 ^ m < 2 ^ 31 \<Longrightarrow>
   decodeIntegerLoop (pre @ map of_nat (encodeIntegerRest w) @ post) (int (length pre)) acc m
     = (acc + int (w * 2 ^ m), int (length pre) + int (length (encodeIntegerRest w)))"
proof (induction w arbitrary: pre acc m rule: encodeIntegerRest.induct)
  case (1 v)
  show ?case
  proof (cases "v \<ge> 128")
    case False
    then have enc: "encodeIntegerRest v = [v]"
      by (subst encodeIntegerRest.simps) simp
    have v: "v < 128" using False by simp
    have b: "byteAt (pre @ of_nat v # post) (int (length pre)) = v"
      using v by (simp add: byteAt_first unat_byte)
    have sh: "shiftLeft (v mod 128) m = int (v * 2 ^ m)"
      using "1.prems" v shiftLeft_small [of v m] by simp
    have "decodeIntegerLoop (pre @ of_nat v # post) (int (length pre)) acc m
        = (acc + shiftLeft (v mod 128) m, int (length pre) + 1)"
      using v by (intro decodeIntegerLoop_last [OF b]) simp
    then show ?thesis
      by (simp add: enc sh)
  next
    case True
    then have enc: "encodeIntegerRest v = (v mod 128 + 128) # encodeIntegerRest (v div 128)"
      by (subst encodeIntegerRest.simps) simp
    define x :: byte where "x = of_nat (v mod 128 + 128)"
    define rest :: buffer where "rest = map of_nat (encodeIntegerRest (v div 128))"
    have buf: "pre @ map of_nat (encodeIntegerRest v) @ post = pre @ x # rest @ post"
      by (simp add: enc x_def rest_def)
    have buf': "pre @ x # rest @ post = (pre @ [x]) @ rest @ post"
      by simp
    have "unat x = (v mod 128 + 128) mod 256"
      unfolding x_def by (rule unat_byte)
    then have u: "unat x = v mod 128 + 128"
      by simp
    have b: "byteAt (pre @ x # rest @ post) (int (length pre)) = v mod 128 + 128"
      by (simp only: byteAt_first u)
    have low: "(v mod 128) * 2 ^ m < 2 ^ 31"
      using "1.prems" by (meson le_less_trans mod_less_eq_dividend mult_le_mono1)
    have sh: "shiftLeft ((v mod 128 + 128) mod 128) m = int ((v mod 128) * 2 ^ m)"
      using shiftLeft_small [OF low] by simp
    have "(v div 128) * 2 ^ (m + 7) = (v div 128) * 128 * 2 ^ m"
      by (simp add: power_add)
    also have "\<dots> \<le> v * 2 ^ m"
      by (intro mult_le_mono1) simp
    finally have hi: "(v div 128) * 2 ^ (m + 7) < 2 ^ 31"
      using "1.prems" by simp
    have IH: "decodeIntegerLoop ((pre @ [x]) @ rest @ post) (int (length (pre @ [x])))
         (acc + int ((v mod 128) * 2 ^ m)) (m + 7)
       = (acc + int ((v mod 128) * 2 ^ m) + int ((v div 128) * 2 ^ (m + 7)),
          int (length (pre @ [x])) + int (length (encodeIntegerRest (v div 128))))"
      unfolding rest_def by (rule "1.IH" [OF True hi])
    have sum: "(v mod 128) * 2 ^ m + (v div 128) * 2 ^ (m + 7) = v * 2 ^ m"
    proof -
      have "(v mod 128) * 2 ^ m + (v div 128) * 2 ^ (m + 7)
          = (v mod 128) * 2 ^ m + (v div 128) * 128 * 2 ^ m"
        by (simp add: power_add)
      also have "\<dots> = (v mod 128 + (v div 128) * 128) * 2 ^ m"
        by (simp only: add_mult_distrib)
      also have "\<dots> = v * 2 ^ m"
        by simp
      finally show ?thesis .
    qed
    have isum: "acc + int ((v mod 128) * 2 ^ m) + int ((v div 128) * 2 ^ (m + 7))
        = acc + int (v * 2 ^ m)"
      using sum by (metis add.assoc of_nat_add)
    have "(v mod 128 + 128) div 128 = 1"
      by presburger
    then have odd: "odd ((v mod 128 + 128) div 128)"
      by simp
    have "decodeIntegerLoop (pre @ x # rest @ post) (int (length pre)) acc m
        = decodeIntegerLoop (pre @ x # rest @ post) (int (length pre) + 1)
            (acc + shiftLeft ((v mod 128 + 128) mod 128) m) (m + 7)"
      by (rule decodeIntegerLoop_more [OF b odd])
    also have "\<dots> = decodeIntegerLoop ((pre @ [x]) @ rest @ post) (int (length (pre @ [x])))
         (acc + int ((v mod 128) * 2 ^ m)) (m + 7)"
      by (simp only: sh buf') (simp add: add.commute)
    also note IH
    finally show ?thesis
      by (simp only: buf isum) (simp add: enc)
  qed
qed


lemma decodeInteger_single:
  "byteAt buffer offset = b \<Longrightarrow> b mod 2 ^ n \<noteq> 2 ^ n - 1 \<Longrightarrow>
   decodeInteger buffer offset n = (int (b mod 2 ^ n), 1)"
  by (simp add: decodeInteger_def Let_def and_maxPrefix_Suc)

lemma decodeInteger_multi:
  "byteAt buffer offset = b \<Longrightarrow> b mod 2 ^ n = 2 ^ n - 1 \<Longrightarrow>
   decodeInteger buffer offset n
     = (case decodeIntegerLoop buffer (offset + 1) (int (2 ^ n - 1)) 0 of
          (v', next) \<Rightarrow> (v', next - offset))"
  by (simp add: decodeInteger_def Let_def and_maxPrefix_Suc)

lemma encodeInteger_small:
  "v < 2 ^ n - 1 \<Longrightarrow> encodeInteger v n p = [of_nat (or p v)]"
  by (simp add: encodeInteger_def Let_def)

lemma encodeInteger_large:
  "\<not> v < 2 ^ n - 1 \<Longrightarrow>
   encodeInteger v n p = of_nat (or p (2 ^ n - 1)) # map of_nat (encodeIntegerRest (v - (2 ^ n - 1)))"
  by (simp add: encodeInteger_def Let_def)

lemma decodeInteger_length:
  assumes "L < 2 ^ 31"
  shows "decodeInteger (pre @ encodeInteger L 7 0x00 @ post) (int (length pre)) 7
     = (int L, int (length (encodeInteger L 7 0x00)))"
proof (cases "L < 127")
  case True
  then have enc: "encodeInteger L 7 0x00 = [of_nat L]"
    using encodeInteger_small [of L 7 0] by simp
  have b: "byteAt (pre @ of_nat L # post) (int (length pre)) = L"
    using True by (simp add: byteAt_first unat_byte)
  have "L mod 2 ^ 7 \<noteq> 2 ^ 7 - 1"
    using True by simp
  from decodeInteger_single [OF b this] True show ?thesis
    by (simp add: enc)
next
  case False
  define rest :: buffer where "rest = map of_nat (encodeIntegerRest (L - 127))"
  have enc: "encodeInteger L 7 0x00 = 127 # rest"
    using False encodeInteger_large [of L 7 0] by (simp add: rest_def)
  have b: "byteAt (pre @ 127 # rest @ post) (int (length pre)) = 127"
    by (simp add: byteAt_first)
  have m: "(127::nat) mod 2 ^ 7 = 2 ^ 7 - 1"
    by simp
  have small: "(L - 127) * 2 ^ 0 < 2 ^ 31"
    using assms by simp
  have loop: "decodeIntegerLoop ((pre @ [127]) @ rest @ post) (int (length (pre @ [127]))) 127 0
      = (127 + int ((L - 127) * 2 ^ 0),
         int (length (pre @ [127])) + int (length (encodeIntegerRest (L - 127))))"
    unfolding rest_def by (rule decodeIntegerLoop_encoded [OF small])
  have loop': "decodeIntegerLoop (pre @ 127 # rest @ post) (int (length pre) + 1) 127 0
      = (int L, int (length pre) + 1 + int (length rest))"
    using loop False by (simp add: rest_def add.commute)
  from decodeInteger_multi [OF b m] show ?thesis
    by (simp add: enc loop')
qed

lemma length_Buffer_from: "ascii s \<Longrightarrow> length (Buffer_from s) = length s"
proof (induction s)
  case Nil
  then show ?case by (simp add: Buffer_from_def)
next
  case (Cons c cs)
  then have c: "(of_char c :: nat) < 128" and cs: "ascii cs"
    by (simp_all add: ascii_def)
  from Cons.IH [OF cs] utf8Bytes_ascii [OF c] show ?case
    by (simp add: Buffer_from_def)
qed

lemma subarray_inside:
  "subarray (pre @ bs @ post) (int (length pre)) (int (length pre) + int (length bs)) = bs"
  by (simp add: subarray_def Let_def)

lemma decodeString_encoded:
  assumes "ascii s" "length s < 2 ^ 31"
  shows "decodeString (pre @ encodeString s @ post) (int (length pre))
     = (s, int (length (encodeString s)))"
proof -
  define lenBuf where "lenBuf = encodeInteger (length s) 7 0x00"
  define bs where "bs = Buffer_from s"
  have l: "length bs = length s"
    unfolding bs_def by (rule length_Buffer_from [OF assms(1)])
  have enc: "encodeString s = lenBuf @ bs"
    by (simp add: encodeString_def Let_def lenBuf_def bs_def l [unfolded bs_def])
  have di: "decodeInteger (pre @ lenBuf @ (bs @ post)) (int (length pre)) 7
      = (int (length s), int (length lenBuf))"
    unfolding lenBuf_def by (rule decodeInteger_length [OF assms(2)])
  have sub: "subarray ((pre @ lenBuf) @ bs @ post) (int (length (pre @ lenBuf)))
      (int (length (pre @ lenBuf)) + int (length bs)) = bs"
    by (rule subarray_inside)
  have ts: "toString bs = s"
    unfolding bs_def by (rule toString_Buffer_from [OF assms(1)])
  show ?thesis
    using di sub ts l
    by (simp add: decodeString_def enc Let_def add.assoc)
qed



subsection \<open>The static table\<close>

lemma length_HPACK_STATIC_TABLE: "length HPACK_STATIC_TABLE = 62"
  by (simp add: HPACK_STATIC_TABLE_def)

lemma findIndexFrom_found:
  "findIndexFrom P xs k = i \<Longrightarrow> i \<noteq> 0 \<Longrightarrow> 0 < k \<Longrightarrow>
   k \<le> i \<and> i < k + length xs \<and> P (xs ! (i - k))"
proof (induction xs arbitrary: k)
  case Nil
  then show ?case by simp
next
  case (Cons x xs)
  show ?case
  proof (cases "P x")
    case True
    with Cons.prems show ?thesis by simp
  next
    case False
    with Cons.prems have "findIndexFrom P xs (Suc k) = i" by simp
    from Cons.IH [OF this Cons.prems(2)] have r: "Suc k \<le> i" "i < Suc k + length xs"
        "P (xs ! (i - Suc k))"
      by simp_all
    from r(1) have "i - k = Suc (i - Suc k)"
      by simp
    then have "(x # xs) ! (i - k) = xs ! (i - Suc k)"
      by simp
    with r show ?thesis
      by simp
  qed
qed

lemma findStaticTableIndex_found:
  assumes "findStaticTableIndex n = i" "0 < i"
  shows "i < 62 \<and> fst (HPACK_STATIC_TABLE ! i) = toLowerCase n"
proof -
  from assms have "findIndexFrom (\<lambda>entry. fst entry = toLowerCase n) (tl HPACK_STATIC_TABLE) 1 = i"
    "i \<noteq> 0"
    by (simp_all add: findStaticTableIndex_def)
  from findIndexFrom_found [OF this] have
    b: "1 \<le> i" "i < 1 + length (tl HPACK_STATIC_TABLE)"
    and p: "fst (tl HPACK_STATIC_TABLE ! (i - 1)) = toLowerCase n"
    by simp_all
  from b have i: "i < 62" by (simp add: length_HPACK_STATIC_TABLE)
  have "tl HPACK_STATIC_TABLE ! (i - 1) = HPACK_STATIC_TABLE ! Suc (i - 1)"
    using b by (intro nth_tl) (simp add: length_HPACK_STATIC_TABLE)
  with p b i show ?thesis by simp
qed


lemma getTableEntry_static:
  "0 < i \<Longrightarrow> i < 62 \<Longrightarrow> getTableEntry D (int i) = Some (HPACK_STATIC_TABLE ! i)"
  by (simp add: getTableEntry_def length_HPACK_STATIC_TABLE)

subsection \<open>One representation at a time\<close>

lemma decodeStep_indexed:
  assumes "0 < i" "i < 62"
  shows "decodeStep (pre @ encodeInteger i 7 0x80 @ post) (H, D, int (length pre))
     = (Map_set H (fst (HPACK_STATIC_TABLE ! i)) (snd (HPACK_STATIC_TABLE ! i)), D,
        int (length pre) + 1)"
proof -
  define x :: byte where "x = of_nat (128 + i)"
  have enc: "encodeInteger i 7 0x80 = [x]"
    using assms encodeInteger_small [of i 7 "0x80"] or_0x80 [of i] by (simp add: x_def)
  have "unat x = (128 + i) mod 256"
    unfolding x_def by (rule unat_byte)
  then have u: "unat x = 128 + i"
    using assms by simp
  have b: "byteAt (pre @ x # post) (int (length pre)) = 128 + i"
    by (simp only: byteAt_first u)
  have d1: "(128 + i) div 128 = 1" using assms by simp
  have m: "(128 + i) mod 2 ^ 7 = i" using assms by simp
  have ne: "(128 + i) mod 2 ^ 7 \<noteq> 2 ^ 7 - 1" using assms by simp
  from decodeInteger_single [OF b ne]
  have di: "decodeInteger (pre @ x # post) (int (length pre)) 7 = (int i, 1)"
    by (simp only: m)
  show ?thesis
    using assms
    by (simp add: decodeStep_def enc Let_def b and_0x80 d1 di getTableEntry_static)
qed



lemma decodeStep_literal_indexed:
  assumes "0 < i" "i < 15" "ascii v" "length v < 2 ^ 31"
  shows "decodeStep (pre @ ([of_nat (or 0x00 i)] @ encodeString v) @ post)
       (H, D, int (length pre))
     = (Map_set H (fst (HPACK_STATIC_TABLE ! i)) v, D,
        int (length pre) + int (length ([of_nat (or 0x00 i) :: byte] @ encodeString v)))"
proof -
  define x :: byte where "x = of_nat i"
  have "unat x = i mod 256"
    unfolding x_def by (rule unat_byte)
  then have u: "unat x = i"
    using assms by simp
  let ?buf = "pre @ x # encodeString v @ post"
  have b: "byteAt ?buf (int (length pre)) = i"
    by (simp only: byteAt_first u)
  have d1: "i div 128 = 0" "i div 64 = 0" "i div 32 = 0" using assms by simp_all
  have m: "i mod 2 ^ 4 = i" using assms by simp
  have ne: "i mod 2 ^ 4 \<noteq> 2 ^ 4 - 1" using assms by simp
  from decodeInteger_single [OF b ne]
  have di: "decodeInteger ?buf (int (length pre)) 4 = (int i, 1)"
    by (simp only: m)
  have "decodeString ((pre @ [x]) @ encodeString v @ post) (int (length (pre @ [x])))
      = (v, int (length (encodeString v)))"
    by (rule decodeString_encoded [OF assms(3,4)])
  then have ds': "decodeString ?buf (int (length pre) + 1) = (v, int (length (encodeString v)))"
    by (simp add: add.commute)
  have i62: "i < 62" using assms by simp
  show ?thesis
    using assms(1) i62
    by (simp add: decodeStep_def x_def [symmetric] Let_def b and_0x80 and_0x40 and_0x20 d1 di
        decodeName_def getTableEntry_static ds')
qed

lemma decodeStep_literal_new:
  assumes "ascii n" "length n < 2 ^ 31" "ascii v" "length v < 2 ^ 31"
  shows "decodeStep (pre @ ([0x00] @ encodeString n @ encodeString v) @ post)
       (H, D, int (length pre))
     = (Map_set H n v, D,
        int (length pre) + int (length ([0x00 :: byte] @ encodeString n @ encodeString v)))"
proof -
  let ?buf = "pre @ 0x00 # encodeString n @ encodeString v @ post"
  have b: "byteAt ?buf (int (length pre)) = 0"
    by (simp add: byteAt_first)
  have ne: "(0::nat) mod 2 ^ 4 \<noteq> 2 ^ 4 - 1" by simp
  from decodeInteger_single [OF b ne]
  have di: "decodeInteger ?buf (int (length pre)) 4 = (0, 1)"
    by simp
  have "decodeString ((pre @ [0x00]) @ encodeString n @ (encodeString v @ post))
      (int (length (pre @ [0x00]))) = (n, int (length (encodeString n)))"
    by (rule decodeString_encoded [OF assms(1,2)])
  then have dn: "decodeString ?buf (int (length pre) + 1) = (n, int (length (encodeString n)))"
    by (simp add: add.commute)
  have "decodeString ((pre @ 0x00 # encodeString n) @ encodeString v @ post)
      (int (length (pre @ 0x00 # encodeString n))) = (v, int (length (encodeString v)))"
    by (rule decodeString_encoded [OF assms(3,4)])
  then have dv: "decodeString ?buf (int (length pre) + 1 + int (length (encodeString n)))
      = (v, int (length (encodeString v)))"
    by (simp add: add.commute add.left_commute)
  show ?thesis
    by (simp add: decodeStep_def Let_def b di decodeName_def dn dv)
qed


subsection \<open>One header entry\<close>



lemma decodeStep_literalEntry:
  assumes "ascii n" "ascii v" "toLowerCase n = n" "length n < 2 ^ 31" "length v < 2 ^ 31"
    and "findStaticTableIndex n < 15"
  shows "decodeStep (pre @ encodeLiteralEntry (n, v) @ post) (H, D, int (length pre))
     = (Map_set H n v, D, int (length pre) + int (length (encodeLiteralEntry (n, v))))"
proof (cases "0 < findStaticTableIndex n")
  case True
  define i where "i = findStaticTableIndex n"
  from findStaticTableIndex_found [OF i_def [symmetric]] True
  have i: "0 < i" and e: "fst (HPACK_STATIC_TABLE ! i) = n"
    by (simp_all add: i_def assms(3))
  have i15: "i < 15" using assms(6) by (simp add: i_def)
  have enc: "encodeLiteralEntry (n, v) = [of_nat (or 0x00 i)] @ encodeString v"
    using True by (simp add: encodeLiteralEntry_def Let_def i_def)
  from decodeStep_literal_indexed [OF i i15 assms(2,5), of pre post H D] show ?thesis
    by (simp only: enc e)
next
  case False
  then have enc: "encodeLiteralEntry (n, v) = [0x00] @ encodeString n @ encodeString v"
    by (simp add: encodeLiteralEntry_def Let_def)
  from decodeStep_literal_new [OF assms(1,4,2,5), of pre post H D] show ?thesis
    by (simp only: enc)
qed


lemma encodeLiteralEntry_nonempty: "encodeLiteralEntry h \<noteq> []"
  by (simp add: encodeLiteralEntry_def Let_def)

subsection \<open>The loop\<close>

lemma decodeLoop_done:
  "\<not> offset < int (length buffer) \<Longrightarrow> decodeLoop fuel buffer (H, D, offset) = Some (H, D)"
  by simp

lemma decodeLoop_Suc:
  "offset < int (length buffer) \<Longrightarrow>
   decodeLoop (Suc fuel) buffer (H, D, offset) = decodeLoop fuel buffer (decodeStep buffer (H, D, offset))"
  by simp


lemma decodeLoop_literal:
  "\<forall>h \<in> set hs. roundTrips h \<and> findStaticTableIndex (fst h) < 15 \<Longrightarrow>
   decodeLoop (length hs + k) (pre @ encodeHeadersLiteral hs) (H, D, int (length pre))
     = Some (setAll H hs, D)"
proof (induction hs arbitrary: pre H)
  case Nil
  show ?case
    by (simp add: encodeHeadersLiteral_def setAll_def del: decodeLoop.simps add: decodeLoop_done)
next
  case (Cons h hs)
  obtain n v where h: "h = (n, v)" by (cases h)
  from Cons.prems have rt: "roundTrips (n, v)" and ix: "findStaticTableIndex n < 15"
    and rest: "\<forall>h \<in> set hs. roundTrips h \<and> findStaticTableIndex (fst h) < 15"
    by (simp_all add: h)
  define e where "e = encodeLiteralEntry (n, v)"
  have ne: "e \<noteq> []" unfolding e_def by (rule encodeLiteralEntry_nonempty)
  have buf: "pre @ encodeHeadersLiteral (h # hs) = pre @ e @ encodeHeadersLiteral hs"
    by (simp add: encodeHeadersLiteral_def h e_def)
  have lt: "int (length pre) < int (length (pre @ e @ encodeHeadersLiteral hs))"
    using ne by (cases e) simp_all
  from rt ix decodeStep_literalEntry [of n v pre "encodeHeadersLiteral hs" H D]
  have step: "decodeStep (pre @ e @ encodeHeadersLiteral hs) (H, D, int (length pre))
      = (Map_set H n v, D, int (length pre) + int (length e))"
    by (auto simp: roundTrips_def e_def)
  from Cons.IH [OF rest, of "pre @ e" "Map_set H n v"]
  have ih: "decodeLoop (length hs + k) ((pre @ e) @ encodeHeadersLiteral hs)
      (Map_set H n v, D, int (length (pre @ e))) = Some (setAll (Map_set H n v) hs, D)" .
  have "decodeLoop (length (h # hs) + k) (pre @ encodeHeadersLiteral (h # hs))
        (H, D, int (length pre))
      = decodeLoop (length hs + k) (pre @ e @ encodeHeadersLiteral hs)
          (decodeStep (pre @ e @ encodeHeadersLiteral hs) (H, D, int (length pre)))"
    using decodeLoop_Suc [OF lt, of "length hs + k" H D] by (simp only: buf list.size add_Suc) simp
  also have "\<dots> = Some (setAll (Map_set H n v) hs, D)"
    using ih by (simp only: step) simp
  finally show ?case
    by (simp add: setAll_def h)
qed

lemma Map_set_fresh: "k \<notin> fst ` set m \<Longrightarrow> Map_set m k v = m @ [(k, v)]"
  unfolding Map_set_def by (induction m) auto

lemma setAll_distinct: "distinct (map fst (m @ hs)) \<Longrightarrow> setAll m hs = m @ hs"
proof (induction hs arbitrary: m)
  case Nil
  show ?case by (simp add: setAll_def)
next
  case (Cons h hs)
  then have fresh: "fst h \<notin> fst ` set m" and d: "distinct (map fst ((m @ [h]) @ hs))"
    by auto
  have "setAll m (h # hs) = setAll (Map_set m (fst h) (snd h)) hs"
    by (simp add: setAll_def)
  also have "\<dots> = setAll (m @ [h]) hs"
    by (simp add: Map_set_fresh [OF fresh])
  also have "\<dots> = (m @ [h]) @ hs"
    by (rule Cons.IH [OF d])
  finally show ?case by simp
qed


lemma encodable_roundTrips: "encodable h \<Longrightarrow> roundTrips h"
  by (simp add: encodable_def roundTrips_def maxDynamicTableSize_def)

lemma encodeHeaders_method_get: "encodeHeaders [('':method'', ''GET'')] = [0x82]"
  by code_simp

lemma decodeHeaders_0x82: "decodeHeaders 1 D [0x82] = Some ([('':method'', ''GET'')], D)"
proof -
  have enc: "encodeInteger 2 7 0x80 = [0x82]"
    by code_simp
  have e: "HPACK_STATIC_TABLE ! 2 = ('':method'', ''GET'')"
    by (simp add: HPACK_STATIC_TABLE_def)
  have "decodeStep ([] @ encodeInteger 2 7 0x80 @ []) ([], D, int (length ([] :: buffer)))
      = (Map_set [] (fst (HPACK_STATIC_TABLE ! 2)) (snd (HPACK_STATIC_TABLE ! 2)), D,
         int (length ([] :: buffer)) + 1)"
    by (rule decodeStep_indexed) simp_all
  then have "decodeStep [0x82] ([], D, 0) = ([('':method'', ''GET'')], D, 1)"
    by (simp add: enc e Map_set_def)
  then show ?thesis
    by (simp add: decodeHeaders_def)
qed


lemma decodeHeaders_encodeHeadersLiteral:
  assumes "distinct (map fst hs)" "\<forall>h \<in> set hs. encodable h" "length hs \<le> fuel"
    and "\<forall>h \<in> set hs. findStaticTableIndex (fst h) < 15"
  shows "decodeHeaders fuel D (encodeHeadersLiteral hs) = Some (hs, D)"
proof -
  from assms(3) obtain k where fuel: "fuel = length hs + k"
    using le_Suc_ex by blast
  from assms(2) have rt: "\<forall>h \<in> set hs. roundTrips h"
    by (simp add: encodable_roundTrips)
  from assms(1) have all: "setAll [] hs = hs"
    using setAll_distinct [of "[]" hs] by simp
  from rt assms(4) have "\<forall>h \<in> set hs. roundTrips h \<and> findStaticTableIndex (fst h) < 15"
    by simp
  from decodeLoop_literal [OF this, of k "[]" "[]" D] show ?thesis
    by (simp add: decodeHeaders_def fuel all del: decodeLoop.simps)
qed

text \<open>
  Claim C2. The claim asks both encoders to round-trip every list of ASCII pairs with
  distinct names. \<^const>\<open>encodeHeadersLiteral\<close> writes the static index of a name into the
  first byte as it is, where its comment announces a four-bit prefix and the sibling
  \<^const>\<open>encodeHeaders\<close> calls \<^const>\<open>encodeInteger\<close>. The name \<^verbatim>\<open>content-type\<close> has the
  index 31: the first byte is \<^verbatim>\<open>0x1f\<close>, whose four low bits are all set, so the decoder
  reads on, adds the length byte of the value to the index and finds \<^verbatim>\<open>cache-control\<close>,
  and takes the first letter of the value for its length. The pair \<^verbatim>\<open>content-type\<close>,
  \<^verbatim>\<open>text/html\<close> comes back as \<^verbatim>\<open>cache-control\<close>, \<^verbatim>\<open>ext/html\<close>, while the
  sibling encoder round-trips it.
\<close>

theorem encodeHeadersLiteral_static_name:
  "encodeHeadersLiteral [(''content-type'', ''text/html'')]
     = [0x1f, 0x09, 0x74, 0x65, 0x78, 0x74, 0x2f, 0x68, 0x74, 0x6d, 0x6c]
   \<and> decodeHeaders 1 [] (encodeHeadersLiteral [(''content-type'', ''text/html'')])
     = Some ([(''cache-control'', ''ext/html'')], [])
   \<and> decodeHeaders 1 [] (encodeHeaders [(''content-type'', ''text/html'')])
     = Some ([(''content-type'', ''text/html'')], [(''content-type'', ''text/html'')])"
  by code_simp

section \<open>HTTP/2 response extraction\<close>














end
